theory Spec2Isabelle
  imports Main "HOL-Library.Monad_Syntax"
begin

section \<open>The user table of UOCFlix (src/UOCFlix/src/user.c)\<close>

text \<open>
  The C functions of \<^verbatim>\<open>user.c\<close> are embedded as HOL functions. A function that
  writes through a pointer takes the object and returns the updated one. A function
  returns \<open>None\<close> where the C program has no defined result: a failed \<^verbatim>\<open>assert\<close>,
  a read through a null or indeterminate pointer, an index outside the allocated block,
  a signed overflow. Every \<^verbatim>\<open>malloc\<close> and \<^verbatim>\<open>realloc\<close> asks the allocation
  script \<open>heap\<close> whether it succeeds, so that the paths of \<^verbatim>\<open>ERR_MEMORY_ERROR\<close>
  are paths of the model.
\<close>

subsection \<open>Error codes, strings, allocation\<close>

datatype tError = OK | ERR_MEMORY_ERROR | ERR_DUPLICATED | ERR_NOT_FOUND

text \<open>
  A \<^verbatim>\<open>char*\<close> field: the null pointer, a pointer that was never assigned, a block
  returned by \<^verbatim>\<open>malloc\<close> that was never written, or a NUL-terminated string (the
  characters before the terminator).
\<close>

datatype cstring = NULL | Garbage | Buffer | Str string

text \<open>
  The outcomes of the allocation requests to come, in order; once the script is used up
  every request succeeds. \<^verbatim>\<open>malloc\<close> and \<^verbatim>\<open>realloc\<close> both take one outcome.
\<close>

type_synonym heap = "bool list"

fun malloc :: "heap \<Rightarrow> bool \<times> heap" where
  "malloc [] = (True, [])"
| "malloc (b # h) = (b, h)"

text \<open>\<^verbatim>\<open>strcmp(a, b) == 0\<close>; both arguments must be strings.\<close>

fun strcmp0 :: "cstring \<Rightarrow> cstring \<Rightarrow> bool option" where
  "strcmp0 (Str a) (Str b) = Some (a = b)"
| "strcmp0 _ _ = None"

subsection \<open>Favorites\<close>

text \<open>
  Modelled from the spec: the types \<^verbatim>\<open>tGenre\<close>, \<^verbatim>\<open>tSeries\<close>, \<^verbatim>\<open>tFilm\<close>,
  \<^verbatim>\<open>tFavorite\<close> and \<^verbatim>\<open>tFavoriteStack\<close> and the stack primitives are declared in
  headers that are not among the sources. A favorite wraps a film, a film references its
  series, a series has a genre; a genre is a C enumeration value, an \<open>int\<close>. Only the
  path \<^verbatim>\<open>e.film.series->genre\<close> that \<^verbatim>\<open>user.c\<close> reads is kept. A stack is the list
  of its entries, the top (\<^verbatim>\<open>first\<close>) at the head; \<open>NoStack\<close> is a stack object that
  \<^verbatim>\<open>favoriteStack_create\<close> never initialised.
\<close>

record tSeries =
  genre :: int

record tFilm =
  series :: tSeries

record tFavorite =
  film :: tFilm

datatype tFavoriteStack = NoStack | Stack "tFavorite list"

text \<open>Modelled from the spec: \<^verbatim>\<open>favoriteStack_create\<close> makes the empty stack.\<close>

definition favoriteStack_create :: "tFavoriteStack" where
  "favoriteStack_create = Stack []"

text \<open>
  Modelled from the spec: \<^verbatim>\<open>favoriteStack_free\<close> releases the entries of an initialised
  stack and leaves it empty.
\<close>

fun favoriteStack_free :: "tFavoriteStack \<Rightarrow> tFavoriteStack option" where
  "favoriteStack_free NoStack = None"
| "favoriteStack_free (Stack es) = Some (Stack [])"

text \<open>Modelled from the spec: \<^verbatim>\<open>favoriteStack_duplicate\<close> copies an initialised stack.\<close>

fun favoriteStack_duplicate :: "tFavoriteStack \<Rightarrow> tFavoriteStack option" where
  "favoriteStack_duplicate NoStack = None"
| "favoriteStack_duplicate (Stack es) = Some (Stack es)"

subsection \<open>Users\<close>

record tUser =
  username :: cstring
  name :: cstring
  mail :: cstring
  favorites :: tFavoriteStack

text \<open>
  \<^verbatim>\<open>user_init\<close>: the three arguments must be strings (the assertions, and
  \<^verbatim>\<open>strlen\<close>). The three fields are overwritten by the results of three
  \<^verbatim>\<open>malloc\<close> calls; if one of them failed the function returns
  \<^verbatim>\<open>ERR_MEMORY_ERROR\<close> before anything is copied and before the stack is created.
\<close>

definition user_init ::
  "heap \<Rightarrow> tUser \<Rightarrow> cstring \<Rightarrow> cstring \<Rightarrow> cstring \<Rightarrow> (tError \<times> tUser \<times> heap) option" where
  "user_init h object username0 name0 mail0 =
     (case (username0, name0, mail0) of
        (Str u, Str n, Str m) \<Rightarrow>
          (let (a1, h1) = malloc h;
               (a2, h2) = malloc h1;
               (a3, h3) = malloc h2;
               object1 = object\<lparr>username := (if a1 then Buffer else NULL),
                                name := (if a2 then Buffer else NULL),
                                mail := (if a3 then Buffer else NULL)\<rparr>
           in if \<not> a1 \<or> \<not> a2 \<or> \<not> a3 then Some (ERR_MEMORY_ERROR, object1, h3)
              else Some (OK, object1\<lparr>username := Str u, name := Str n, mail := Str m,
                                      favorites := favoriteStack_create\<rparr>, h3))
      | _ \<Rightarrow> None)"

text \<open>\<^verbatim>\<open>free\<close> of a field that is not null; the field is then set to null.\<close>

fun free_field :: "cstring \<Rightarrow> cstring option" where
  "free_field NULL = Some NULL"
| "free_field Garbage = None"
| "free_field Buffer = Some NULL"
| "free_field (Str s) = Some NULL"

definition user_free :: "tUser \<Rightarrow> tUser option" where
  "user_free object =
     do {
       u \<leftarrow> free_field (username object);
       n \<leftarrow> free_field (name object);
       m \<leftarrow> free_field (mail object);
       f \<leftarrow> favoriteStack_free (favorites object);
       Some (object\<lparr>username := u, name := n, mail := m, favorites := f\<rparr>)
     }"

definition user_equals :: "tUser \<Rightarrow> tUser \<Rightarrow> bool option" where
  "user_equals user1 user2 =
     do {
       c1 \<leftarrow> strcmp0 (username user1) (username user2);
       if \<not> c1 then Some False
       else do {
         c2 \<leftarrow> strcmp0 (name user1) (name user2);
         if \<not> c2 then Some False
         else do {
           c3 \<leftarrow> strcmp0 (mail user1) (mail user2);
           if \<not> c3 then Some False else Some True
         }
       }
     }"

text \<open>
  \<^verbatim>\<open>user_cpy\<close>: \<open>dst\<close> and \<open>src\<close> are two objects, as at its call in
  \<^verbatim>\<open>userTable_remove\<close>. The result of \<^verbatim>\<open>user_init\<close> is dropped.
\<close>

definition user_cpy :: "heap \<Rightarrow> tUser \<Rightarrow> tUser \<Rightarrow> (tError \<times> tUser \<times> heap) option" where
  "user_cpy h dst src =
     do {
       dst1 \<leftarrow> user_free dst;
       (e, dst2, h1) \<leftarrow> user_init h dst1 (username src) (name src) (mail src);
       Some (OK, dst2, h1)
     }"

subsection \<open>The table\<close>

text \<open>
  \<^verbatim>\<open>elements\<close> is null (\<open>None\<close>) or a block of slots; \<^verbatim>\<open>size\<close> is the stored
  count, kept apart from the length of the block as in the C structure. The structure is
  declared in a header that is not among the sources; the count is a natural number, and
  the counts of tables that fit in memory are within the range of the C type.
\<close>

record tUserTable =
  elements :: "tUser list option"
  size' :: nat

text \<open>A slot of a new block: nothing in it was assigned.\<close>

definition fresh_slot :: tUser where
  "fresh_slot = \<lparr>username = Garbage, name = Garbage, mail = Garbage, favorites = NoStack\<rparr>"

text \<open>
  \<^verbatim>\<open>realloc(block, n * sizeof(tUser))\<close>, and \<^verbatim>\<open>malloc\<close> when \<open>block\<close> is null:
  on success the first slots are kept and new ones are unassigned; on failure the result
  is null.
\<close>

definition realloc :: "heap \<Rightarrow> tUser list option \<Rightarrow> nat \<Rightarrow> tUser list option \<times> heap" where
  "realloc h block n =
     (let (a, h1) = malloc h
      in if a then
           (case block of
              None \<Rightarrow> (Some (replicate n fresh_slot), h1)
            | Some es \<Rightarrow> (Some (take n es @ replicate (n - length es) fresh_slot), h1))
         else (None, h1))"

definition userTable_init :: tUserTable where
  "userTable_init = \<lparr>elements = None, size' = 0\<rparr>"

definition userTable_free :: "tUserTable \<Rightarrow> tUserTable" where
  "userTable_free table = table\<lparr>elements := None, size' := 0\<rparr>"

text \<open>Reading \<^verbatim>\<open>table->elements[i]\<close>.\<close>

definition element_at :: "tUserTable \<Rightarrow> nat \<Rightarrow> tUser option" where
  "element_at table i =
     (case elements table of
        None \<Rightarrow> None
      | Some es \<Rightarrow> if i < length es then Some (es ! i) else None)"

text \<open>
  \<^verbatim>\<open>userTable_find\<close>: the result is \<open>Some (Some i)\<close> for the address of slot \<open>i\<close>
  and \<open>Some None\<close> for the null pointer. The function asserts that the name it is
  given is not null.
\<close>

function userTable_find_loop :: "tUserTable \<Rightarrow> cstring \<Rightarrow> nat \<Rightarrow> nat option option" where
  "userTable_find_loop table uname i =
     (if i < size' table then
        do {
          e \<leftarrow> element_at table i;
          c \<leftarrow> strcmp0 (username e) uname;
          if c then Some (Some i) else userTable_find_loop table uname (i + 1)
        }
      else Some None)"
  by pat_completeness auto
termination
  by (relation "measure (\<lambda>(table, uname, i). size' table - i)") auto

declare userTable_find_loop.simps [simp del]

definition userTable_find :: "tUserTable \<Rightarrow> cstring \<Rightarrow> nat option option" where
  "userTable_find table uname =
     (if uname = NULL then None else userTable_find_loop table uname 0)"

text \<open>
  \<^verbatim>\<open>userTable_add\<close>: the size is increased before the block is requested, the block
  pointer is overwritten by the request's result, and the result of \<^verbatim>\<open>user_init\<close> is
  dropped.
\<close>

definition userTable_add ::
  "heap \<Rightarrow> tUserTable \<Rightarrow> tUser \<Rightarrow> (tError \<times> tUserTable \<times> heap) option" where
  "userTable_add h table user =
     do {
       f \<leftarrow> userTable_find table (username user);
       if f \<noteq> None then Some (ERR_DUPLICATED, table, h)
       else
         (let table1 = (if size' table = 0 then table\<lparr>size' := 1\<rparr>
                        else table\<lparr>size' := size' table + 1\<rparr>);
              (block, h1) = (if size' table = 0 then realloc h None (size' table1)
                             else realloc h (elements table1) (size' table1));
              table2 = table1\<lparr>elements := block\<rparr>
          in case block of
               None \<Rightarrow> Some (ERR_MEMORY_ERROR, table2, h1)
             | Some es \<Rightarrow>
                 do {
                   slot \<leftarrow> element_at table2 (size' table2 - 1);
                   (e, slot1, h2) \<leftarrow> user_init h1 slot (username user) (name user) (mail user);
                   Some (OK, table2\<lparr>elements := Some (es[size' table2 - 1 := slot1])\<rparr>, h2)
                 })
     }"

text \<open>
  The loop of \<^verbatim>\<open>userTable_remove\<close>. \<open>Inl\<close> is the \<^verbatim>\<open>return ERR_MEMORY_ERROR\<close>
  inside the loop, \<open>Inr\<close> the end of the loop with the flag \<^verbatim>\<open>found\<close>. Once the flag
  is set the argument \<open>user\<close> is not read again, so a \<open>user\<close> that points into the table
  behaves as its value at the call. There is no slot \<open>i - 1\<close> for \<open>i = 0\<close>.
\<close>

function userTable_remove_loop ::
  "heap \<Rightarrow> tUserTable \<Rightarrow> tUser \<Rightarrow> nat \<Rightarrow> bool \<Rightarrow>
     (tError \<times> tUserTable \<times> heap + bool \<times> tUserTable \<times> heap) option" where
  "userTable_remove_loop h table user i found =
     (if i < size' table then
        (if found then
           do {
             es \<leftarrow> elements table;
             dst \<leftarrow> (if i = 0 then None else element_at table (i - 1));
             src \<leftarrow> element_at table i;
             (e, dst1, h1) \<leftarrow> user_cpy h dst src;
             if e = ERR_MEMORY_ERROR
             then Some (Inl (ERR_MEMORY_ERROR, table\<lparr>elements := Some (es[i - 1 := dst1])\<rparr>, h1))
             else userTable_remove_loop h1 (table\<lparr>elements := Some (es[i - 1 := dst1])\<rparr>)
                    user (i + 1) True
           }
         else
           do {
             e \<leftarrow> element_at table i;
             c \<leftarrow> strcmp0 (username e) (username user);
             if c then userTable_remove_loop h table user (i + 1) True
             else userTable_remove_loop h table user (i + 1) False
           })
      else Some (Inr (found, table, h)))"
  by pat_completeness auto
termination
  by (relation "measure (\<lambda>(h, table, user, i, found). size' table - i)") auto

declare userTable_remove_loop.simps [simp del]

definition userTable_remove ::
  "heap \<Rightarrow> tUserTable \<Rightarrow> tUser \<Rightarrow> (tError \<times> tUserTable \<times> heap) option" where
  "userTable_remove h table user =
     do {
       r \<leftarrow> userTable_remove_loop h table user 0 False;
       case r of
         Inl early \<Rightarrow> Some early
       | Inr (found, table1, h1) \<Rightarrow>
           if found then
             (let table2 = table1\<lparr>size' := size' table1 - 1\<rparr>
              in if size' table2 = 0 then Some (OK, table2\<lparr>elements := None\<rparr>, h1)
                 else
                   (let (block, h2) = realloc h1 (elements table2) (size' table2);
                        table3 = table2\<lparr>elements := block\<rparr>
                    in if block = None then Some (ERR_MEMORY_ERROR, table3, h2)
                       else Some (OK, table3, h2)))
           else Some (ERR_NOT_FOUND, table1, h1)
     }"

definition userTable_size :: "tUserTable \<Rightarrow> nat" where
  "userTable_size table = size' table"

function userTable_equals_loop :: "tUserTable \<Rightarrow> tUserTable \<Rightarrow> nat \<Rightarrow> bool option" where
  "userTable_equals_loop userTable1 userTable2 i =
     (if i < size' userTable1 then
        do {
          e \<leftarrow> element_at userTable2 i;
          f \<leftarrow> userTable_find userTable1 (username e);
          if f = None then Some False
          else userTable_equals_loop userTable1 userTable2 (i + 1)
        }
      else Some True)"
  by pat_completeness auto
termination
  by (relation "measure (\<lambda>(userTable1, userTable2, i). size' userTable1 - i)") auto

declare userTable_equals_loop.simps [simp del]

definition userTable_equals :: "tUserTable \<Rightarrow> tUserTable \<Rightarrow> bool option" where
  "userTable_equals userTable1 userTable2 =
     (if size' userTable1 \<noteq> size' userTable2 then Some False
      else userTable_equals_loop userTable1 userTable2 0)"

subsection \<open>Favorites of a user\<close>

text \<open>
  \<^verbatim>\<open>user_addFavorite\<close>. Modelled from the spec: \<^verbatim>\<open>favoriteStack_push\<close> puts the
  entry on top of an initialised stack.
\<close>

definition user_addFavorite :: "heap \<Rightarrow> tUser \<Rightarrow> tFilm \<Rightarrow> (tError \<times> tUser \<times> heap) option" where
  "user_addFavorite h object film0 =
     (let (a, h1) = malloc h
      in if \<not> a then Some (ERR_MEMORY_ERROR, object, h1)
         else (case favorites object of
                 NoStack \<Rightarrow> None
               | Stack es \<Rightarrow> Some (OK, object\<lparr>favorites := Stack (\<lparr>film = film0\<rparr> # es)\<rparr>, h1)))"

text \<open>
  The greatest \<^verbatim>\<open>int\<close> (of 32 bits); an increment beyond it has no defined result.
\<close>

definition INT_MAX :: int where
  "INT_MAX = 2147483647"

text \<open>
  The \<^verbatim>\<open>while\<close> loop of \<^verbatim>\<open>user_getFavoriteGenre\<close> over the entries of the duplicate,
  top first: \<^verbatim>\<open>genreOcurrences\<close> has eight cells, and a genre outside them is a write
  outside the array.
\<close>

fun genre_count_loop :: "tFavorite list \<Rightarrow> int list \<Rightarrow> int \<Rightarrow> (int list \<times> int) option" where
  "genre_count_loop [] genreOcurrences tmpGenre = Some (genreOcurrences, tmpGenre)"
| "genre_count_loop (e # rest) genreOcurrences tmpGenre =
     (let g = genre (series (film e))
      in if 0 \<le> g \<and> g < 8 then
           (if genreOcurrences ! nat g < INT_MAX
            then genre_count_loop rest (genreOcurrences[nat g := genreOcurrences ! nat g + 1]) g
            else None)
         else None)"

text \<open>The \<^verbatim>\<open>for\<close> loop of \<^verbatim>\<open>user_getFavoriteGenre\<close>.\<close>

function genre_max_loop :: "int list \<Rightarrow> nat \<Rightarrow> int \<Rightarrow> int \<Rightarrow> int" where
  "genre_max_loop genreOcurrences i tmpGenre maxOcurrences =
     (if i < 8 then
        (if genreOcurrences ! i > maxOcurrences
         then genre_max_loop genreOcurrences (i + 1) (int i) (genreOcurrences ! i)
         else genre_max_loop genreOcurrences (i + 1) tmpGenre maxOcurrences)
      else tmpGenre)"
  by pat_completeness auto
termination
  by (relation "measure (\<lambda>(genreOcurrences, i, tmpGenre, maxOcurrences). 8 - i)") auto

declare genre_max_loop.simps [simp del]

text \<open>
  \<^verbatim>\<open>user_getFavoriteGenre\<close>. The value of \<^verbatim>\<open>GENRE_NOT_FOUND\<close> is declared in a
  header that is not among the sources and is a parameter. The variable
  \<^verbatim>\<open>maxOcurrences\<close> is declared without an initial value and is read by the first
  comparison of the \<^verbatim>\<open>for\<close> loop: the value it holds then is the parameter
  \<open>maxOcurrences0\<close>.
\<close>

definition user_getFavoriteGenre :: "int \<Rightarrow> int \<Rightarrow> tUser \<Rightarrow> int option" where
  "user_getFavoriteGenre GENRE_NOT_FOUND maxOcurrences0 object =
     do {
       tmpFavoriteStack \<leftarrow> favoriteStack_duplicate (favorites object);
       case tmpFavoriteStack of
         NoStack \<Rightarrow> None
       | Stack es \<Rightarrow>
           do {
             (genreOcurrences, tmpGenre) \<leftarrow> genre_count_loop es (replicate 8 0) GENRE_NOT_FOUND;
             Some (genre_max_loop genreOcurrences 0 tmpGenre maxOcurrences0)
           }
     }"

subsection \<open>Name normalisation\<close>

text \<open>
  \<^verbatim>\<open>isblank\<close>, \<^verbatim>\<open>toupper\<close> and \<^verbatim>\<open>tolower\<close> of the C locale, on the character's
  value as an \<^verbatim>\<open>unsigned char\<close>.
\<close>

definition isblank :: "char \<Rightarrow> bool" where
  "isblank c = (c = CHR '' '' \<or> c = CHR 0x09)"

definition toupper :: "char \<Rightarrow> char" where
  "toupper c = (let n = (of_char c :: nat) in if 97 \<le> n \<and> n \<le> 122 then char_of (n - 32) else c)"

definition tolower :: "char \<Rightarrow> char" where
  "tolower c = (let n = (of_char c :: nat) in if 65 \<le> n \<and> n \<le> 90 then char_of (n + 32) else c)"

text \<open>
  The first loop of \<^verbatim>\<open>user_trimCapitalizeName\<close>. The string \<open>s\<close> is followed by
  its terminator, which is not blank, so the loop stops at \<open>length s\<close> at the latest.
\<close>

function trim_start :: "string \<Rightarrow> nat \<Rightarrow> nat" where
  "trim_start s nameStart =
     (if nameStart < length s \<and> isblank (s ! nameStart) then trim_start s (nameStart + 1)
      else nameStart)"
  by pat_completeness auto
termination
  by (relation "measure (\<lambda>(s, nameStart). length s - nameStart)") auto

declare trim_start.simps [simp del]

text \<open>
  The second loop, from \<open>nameEnd < length s\<close> downwards. \<^verbatim>\<open>nameEnd\<close> is unsigned:
  decrementing it at 0 gives \<^verbatim>\<open>UINT_MAX\<close>, and the next read is outside the string.
\<close>

fun trim_end :: "string \<Rightarrow> nat \<Rightarrow> nat option" where
  "trim_end s 0 = (if isblank (s ! 0) then None else Some 0)"
| "trim_end s (Suc n) = (if isblank (s ! Suc n) then trim_end s n else Some (Suc n))"

text \<open>The copying loop: the characters at \<open>i, ..., nameEnd\<close>.\<close>

function copy_loop :: "string \<Rightarrow> nat \<Rightarrow> nat \<Rightarrow> string" where
  "copy_loop s i nameEnd = (if i \<le> nameEnd then s ! i # copy_loop s (i + 1) nameEnd else [])"
  by pat_completeness auto
termination
  by (relation "measure (\<lambda>(s, i, nameEnd). Suc nameEnd - i)") auto

declare copy_loop.simps [simp del]

text \<open>The last loop, with its flag \<^verbatim>\<open>startOfWord\<close>.\<close>

fun capitalize_loop :: "string \<Rightarrow> bool \<Rightarrow> string" where
  "capitalize_loop [] startOfWord = []"
| "capitalize_loop (c # cs) startOfWord =
     (if isblank c then c # capitalize_loop cs True
      else if startOfWord then toupper c # capitalize_loop cs False
      else tolower c # capitalize_loop cs False)"

text \<open>
  \<^verbatim>\<open>user_trimCapitalizeName\<close>. For the empty string \<^verbatim>\<open>strlen(name) - 1\<close> is
  \<^verbatim>\<open>UINT_MAX\<close> and the second loop reads outside the string.
\<close>

definition user_trimCapitalizeName :: "heap \<Rightarrow> tUser \<Rightarrow> (tError \<times> tUser \<times> heap) option" where
  "user_trimCapitalizeName h object =
     (case name object of
        Str s \<Rightarrow>
          (let nameStart = trim_start s 0
           in if s = [] then None
              else
                do {
                  nameEnd \<leftarrow> trim_end s (length s - 1);
                  (let (a, h1) = malloc h
                   in if \<not> a then Some (ERR_MEMORY_ERROR, object, h1)
                      else
                        (let trimmedName = copy_loop s nameStart nameEnd
                         in Some (OK, object\<lparr>name := Str (capitalize_loop trimmedName True)\<rparr>, h1)))
                })
      | _ \<Rightarrow> None)"

subsection \<open>Valid states\<close>

text \<open>
  An initialised user holds three strings and an initialised stack. A table in a valid
  state is empty with no block, or holds a block of exactly \<^verbatim>\<open>size\<close> initialised
  users.
\<close>

fun is_string :: "cstring \<Rightarrow> bool" where
  "is_string (Str s) = True"
| "is_string _ = False"

definition valid_user :: "tUser \<Rightarrow> bool" where
  "valid_user u =
     (is_string (username u) \<and> is_string (name u) \<and> is_string (mail u) \<and> favorites u \<noteq> NoStack)"

definition valid_table :: "tUserTable \<Rightarrow> bool" where
  "valid_table table =
     (case elements table of
        None \<Rightarrow> size' table = 0
      | Some es \<Rightarrow> size' table = length es \<and> list_all valid_user es)"

text \<open>The users of a table: the first \<^verbatim>\<open>size\<close> slots of the block.\<close>

definition users :: "tUserTable \<Rightarrow> tUser list" where
  "users table = (case elements table of None \<Rightarrow> [] | Some es \<Rightarrow> take (size' table) es)"

subsection \<open>Reachable tables\<close>

text \<open>
  The tables that a program obtains from \<^verbatim>\<open>userTable_init\<close> by calls of
  \<^verbatim>\<open>userTable_add\<close> and \<^verbatim>\<open>userTable_remove\<close> that return, with any users and
  any outcomes of the allocations.
\<close>

inductive reachable :: "tUserTable \<Rightarrow> bool" where
  reachable_init: "reachable userTable_init"
| reachable_add: "reachable t \<Longrightarrow> userTable_add h t u = Some (e, t', h') \<Longrightarrow> reachable t'"
| reachable_remove: "reachable t \<Longrightarrow> userTable_remove h t u = Some (e, t', h') \<Longrightarrow> reachable t'"

text \<open>
  The usernames a table holds: the \<^verbatim>\<open>username\<close> fields of its users that are strings.
  A field that is null or was never written holds no username.
\<close>

definition usernames :: "tUserTable \<Rightarrow> cstring list" where
  "usernames table = filter is_string (map username (users table))"

definition table_inv :: "tUserTable \<Rightarrow> bool" where
  "table_inv table =
     (case elements table of
        None \<Rightarrow> True
      | Some es \<Rightarrow> size' table = length es \<and> distinct (filter is_string (map username es)))"

subsection \<open>The normalised name, in the words of the specification\<close>

text \<open>Leading and trailing blank characters are stripped.\<close>

definition spec_trim :: "string \<Rightarrow> string" where
  "spec_trim s = rev (dropWhile isblank (rev (dropWhile isblank s)))"

text \<open>A word in title case: first letter upper, remainder lower.\<close>

fun title_word :: "string \<Rightarrow> string" where
  "title_word [] = []"
| "title_word (c # cs) = toupper c # map tolower cs"

text \<open>
  Every blank-separated word is put in title case; the blank characters stay where they
  are.
\<close>

function spec_title_case :: "string \<Rightarrow> string" where
  "spec_title_case [] = []"
| "spec_title_case (c # cs) =
     (if isblank c then c # spec_title_case cs
      else title_word (takeWhile (\<lambda>x. \<not> isblank x) (c # cs)) @
           spec_title_case (dropWhile (\<lambda>x. \<not> isblank x) (c # cs)))"
  by pat_completeness auto
termination
  by (relation "measure length") (auto simp: less_Suc_eq_le length_dropWhile_le)

subsection \<open>Occurrences of a genre\<close>

definition genre_of :: "tFavorite \<Rightarrow> int" where
  "genre_of e = genre (series (film e))"

definition occurrences :: "tFavorite list \<Rightarrow> int \<Rightarrow> nat" where
  "occurrences es g = length (filter (\<lambda>e. genre_of e = g) es)"

definition film_of :: "int \<Rightarrow> tFilm" where
  "film_of g = \<lparr>series = \<lparr>genre = g\<rparr>\<rparr>"

definition favorite_of :: "int \<Rightarrow> tFavorite" where
  "favorite_of g = \<lparr>film = film_of g\<rparr>"

text \<open>
  The tie-break in the words of the specification: the first genre, in the order in which
  the entries are popped, whose running count reaches the greatest count.
\<close>

fun first_reaching :: "int list \<Rightarrow> int list \<Rightarrow> nat \<Rightarrow> int option" where
  "first_reaching seen [] m = None"
| "first_reaching seen (g # rest) m =
     (if count_list (g # seen) g = m then Some g else first_reaching (g # seen) rest m)"

definition spec_first_to_maximum :: "int list \<Rightarrow> int option" where
  "spec_first_to_maximum gs =
     first_reaching [] gs (foldr (\<lambda>g m. max (count_list gs g) m) gs 0)"

subsection \<open>Sample data\<close>

definition user_alice :: tUser where
  "user_alice = \<lparr>username = Str ''alice'', name = Str ''Alice A'', mail = Str ''alice@uoc.edu'',
                  favorites = Stack []\<rparr>"

definition user_bob :: tUser where
  "user_bob = \<lparr>username = Str ''bob'', name = Str ''Bob B'', mail = Str ''bob@uoc.edu'',
                favorites = Stack []\<rparr>"

definition user_carol :: tUser where
  "user_carol = \<lparr>username = Str ''carol'', name = Str ''Carol C'', mail = Str ''carol@uoc.edu'',
                  favorites = Stack []\<rparr>"

definition table_ab :: tUserTable where
  "table_ab = \<lparr>elements = Some [user_alice, user_bob], size' = 2\<rparr>"

text \<open>The users of \<open>table_ab\<close> in the other order, with other names and mails.\<close>

definition table_ba :: tUserTable where
  "table_ba = \<lparr>elements = Some [user_bob\<lparr>name := Str ''Robert'', mail := Str ''rob@uoc.edu''\<rparr>,
                                  user_alice\<lparr>name := Str ''Alicia''\<rparr>], size' = 2\<rparr>"

text \<open>A table that holds \<open>user_alice\<close> alone.\<close>

definition table_a :: tUserTable where
  "table_a = \<lparr>elements = Some [user_alice], size' = 1\<rparr>"

text \<open>A slot whose three allocations failed at the first one.\<close>

definition failed_slot :: "tFavoriteStack \<Rightarrow> tUser" where
  "failed_slot st = \<lparr>username = NULL, name = Buffer, mail = Buffer, favorites = st\<rparr>"

section \<open>Properties\<close>

subsection \<open>Valid tables\<close>

lemma strcmp0_string: "is_string a \<Longrightarrow> strcmp0 a (Str s) = Some (a = Str s)"
  by (cases a) auto

lemma valid_table_length: "valid_table t \<Longrightarrow> length (users t) = size' t"
  by (auto simp: valid_table_def users_def split: option.splits)

lemma valid_table_element_at:
  "valid_table t \<Longrightarrow> i < size' t \<Longrightarrow> element_at t i = Some (users t ! i)"
  by (auto simp: valid_table_def users_def element_at_def split: option.splits)

lemma valid_table_user:
  "valid_table t \<Longrightarrow> i < size' t \<Longrightarrow> valid_user (users t ! i)"
  by (auto simp: valid_table_def users_def list_all_length split: option.splits)

lemma valid_table_username:
  "valid_table t \<Longrightarrow> i < size' t \<Longrightarrow> is_string (username (users t ! i))"
  using valid_table_user [of t i] by (simp add: valid_user_def)

lemma valid_table_strcmp0:
  "valid_table t \<Longrightarrow> i < size' t \<Longrightarrow>
   strcmp0 (username (users t ! i)) (Str s) = Some (username (users t ! i) = Str s)"
  by (rule strcmp0_string) (rule valid_table_username)

lemma absent_nth:
  assumes "valid_table t" "Str s \<notin> set (map username (users t))" "j < size' t"
  shows "username (users t ! j) \<noteq> Str s"
proof -
  have "users t ! j \<in> set (users t)"
    using assms(3) valid_table_length [OF assms(1)] by simp
  then show ?thesis using assms(2) by force
qed

lemma first_occurrence:
  "x \<in> set xs \<Longrightarrow> \<exists>k < length xs. xs ! k = x \<and> (\<forall>j < k. xs ! j \<noteq> x)"
proof (induction xs)
  case Nil
  then show ?case by simp
next
  case (Cons a xs)
  show ?case
  proof (cases "a = x")
    case True
    then show ?thesis by (intro exI [of _ 0]) simp
  next
    case False
    with Cons obtain k where k: "k < length xs" "xs ! k = x" "\<forall>j < k. xs ! j \<noteq> x" by auto
    show ?thesis
    proof (intro exI [of _ "Suc k"] conjI allI impI)
      fix j assume "j < Suc k"
      then show "(a # xs) ! j \<noteq> x" using False k(3) by (cases j) auto
    qed (use k in auto)
  qed
qed

lemma all_from_Suc:
  fixes i :: nat
  assumes "P i"
  shows "(\<forall>j. i + 1 \<le> j \<and> j < n \<longrightarrow> P j) = (\<forall>j. i \<le> j \<and> j < n \<longrightarrow> P j)"
proof
  assume a: "\<forall>j. i + 1 \<le> j \<and> j < n \<longrightarrow> P j"
  show "\<forall>j. i \<le> j \<and> j < n \<longrightarrow> P j"
  proof (intro allI impI)
    fix j assume j: "i \<le> j \<and> j < n"
    show "P j"
    proof (cases "j = i")
      case True
      then show ?thesis using assms by simp
    next
      case False
      then have "i + 1 \<le> j" using j by simp
      then show ?thesis using a j by simp
    qed
  qed
next
  assume "\<forall>j. i \<le> j \<and> j < n \<longrightarrow> P j"
  then show "\<forall>j. i + 1 \<le> j \<and> j < n \<longrightarrow> P j" by simp
qed

lemma subset_nth:
  "(\<forall>j. 0 \<le> j \<and> j < length xs \<longrightarrow> f (xs ! j) \<in> A) = (set (map f xs) \<subseteq> A)"
proof
  assume a: "\<forall>j. 0 \<le> j \<and> j < length xs \<longrightarrow> f (xs ! j) \<in> A"
  show "set (map f xs) \<subseteq> A"
  proof
    fix y assume "y \<in> set (map f xs)"
    then obtain j where "j < length xs" "y = f (xs ! j)"
      by (auto simp: in_set_conv_nth)
    then show "y \<in> A" using a by simp
  qed
next
  assume "set (map f xs) \<subseteq> A"
  then show "\<forall>j. 0 \<le> j \<and> j < length xs \<longrightarrow> f (xs ! j) \<in> A"
    using nth_mem by fastforce
qed

subsection \<open>Lookup in a valid table\<close>

lemma find_loop_absent:
  assumes "valid_table t" "\<forall>j. i \<le> j \<and> j < size' t \<longrightarrow> username (users t ! j) \<noteq> Str s"
  shows "userTable_find_loop t (Str s) i = Some None"
  using assms(2)
proof (induction n \<equiv> "size' t - i" arbitrary: i)
  case 0
  then show ?case by (subst userTable_find_loop.simps) simp
next
  case (Suc n)
  then have in_range: "i < size' t" by simp
  have rec: "userTable_find_loop t (Str s) (i + 1) = Some None"
    using Suc by (intro Suc(1)) auto
  show ?case
    using in_range Suc(3) rec valid_table_element_at [OF assms(1) in_range]
      valid_table_strcmp0 [OF assms(1) in_range, of s]
    by (subst userTable_find_loop.simps) simp
qed

lemma find_loop_present:
  assumes "valid_table t" "k < size' t" "username (users t ! k) = Str s"
  shows "i \<le> k \<Longrightarrow> \<forall>j. i \<le> j \<and> j < k \<longrightarrow> username (users t ! j) \<noteq> Str s \<Longrightarrow>
    userTable_find_loop t (Str s) i = Some (Some k)"
proof (induction n \<equiv> "k - i" arbitrary: i)
  case 0
  then have "i = k" by simp
  then show ?case
    using assms valid_table_element_at [OF assms(1,2)] valid_table_strcmp0 [OF assms(1,2), of s]
    by (subst userTable_find_loop.simps) simp
next
  case (Suc n)
  then have lt: "i < k" by simp
  then have in_range: "i < size' t" using assms(2) by simp
  have rec: "userTable_find_loop t (Str s) (i + 1) = Some (Some k)"
    using Suc lt by (intro Suc(1)) auto
  have "username (users t ! i) \<noteq> Str s" using Suc(4) lt by simp
  then show ?case
    using in_range rec valid_table_element_at [OF assms(1) in_range]
      valid_table_strcmp0 [OF assms(1) in_range, of s]
    by (subst userTable_find_loop.simps) simp
qed

lemma find_absent:
  assumes "valid_table t" "Str s \<notin> set (map username (users t))"
  shows "userTable_find t (Str s) = Some None"
  using find_loop_absent [OF assms(1), of 0 s] absent_nth [OF assms]
  by (simp add: userTable_find_def)

lemma find_present:
  assumes "valid_table t" "Str s \<in> set (map username (users t))"
  shows "\<exists>k < size' t. userTable_find t (Str s) = Some (Some k) \<and> username (users t ! k) = Str s"
proof -
  obtain k where k: "k < length (map username (users t))" "map username (users t) ! k = Str s"
      "\<forall>j < k. map username (users t) ! j \<noteq> Str s"
    using first_occurrence [OF assms(2)] by blast
  have len: "length (users t) = size' t" using valid_table_length [OF assms(1)] .
  have "userTable_find_loop t (Str s) 0 = Some (Some k)"
    using find_loop_present [OF assms(1), of k s 0] k len by simp
  then show ?thesis using k len by (auto simp: userTable_find_def)
qed

subsection \<open>Removing an absent user\<close>

lemma remove_loop_absent:
  assumes "valid_table t" "username user = Str s"
    "\<forall>j. i \<le> j \<and> j < size' t \<longrightarrow> username (users t ! j) \<noteq> Str s"
  shows "userTable_remove_loop h t user i False = Some (Inr (False, t, h))"
  using assms(3)
proof (induction n \<equiv> "size' t - i" arbitrary: i)
  case 0
  then show ?case by (subst userTable_remove_loop.simps) simp
next
  case (Suc n)
  then have in_range: "i < size' t" by simp
  have rec: "userTable_remove_loop h t user (i + 1) False = Some (Inr (False, t, h))"
    using Suc by (intro Suc(1)) auto
  show ?case
    using in_range Suc(3) rec assms(2) valid_table_element_at [OF assms(1) in_range]
      valid_table_strcmp0 [OF assms(1) in_range, of s]
    by (subst userTable_remove_loop.simps) simp
qed

text \<open>
  C6. Removing a user whose username does not occur in a valid table returns
  \<^verbatim>\<open>ERR_NOT_FOUND\<close> and leaves the table as it was: the same size and the same
  elements. No allocation is requested.
\<close>

theorem userTable_remove_absent:
  assumes "valid_table table" "username user = Str s"
    "Str s \<notin> set (map username (users table))"
  shows "userTable_remove h table user = Some (ERR_NOT_FOUND, table, h)"
  using remove_loop_absent [OF assms(1,2), of 0 h] absent_nth [OF assms(1,3)]
  by (simp add: userTable_remove_def)

theorem userTable_remove_absent_witness:
  "valid_table table_ab \<and> username user_carol = Str ''carol'' \<and>
   Str ''carol'' \<notin> set (map username (users table_ab)) \<and>
   userTable_remove [False] table_ab user_carol = Some (ERR_NOT_FOUND, table_ab, [False])"
proof -
  have v: "valid_table table_ab"
    by (simp add: valid_table_def valid_user_def table_ab_def user_alice_def user_bob_def)
  have u: "username user_carol = Str ''carol''"
    by (simp add: user_carol_def)
  have a: "Str ''carol'' \<notin> set (map username (users table_ab))"
    by (simp add: users_def table_ab_def user_alice_def user_bob_def)
  show ?thesis
    using v u a userTable_remove_absent [OF v u a, of "[False]"] by simp
qed

subsection \<open>Equality of tables\<close>

lemma equals_loop_valid:
  assumes "valid_table t1" "valid_table t2" "size' t1 = size' t2"
  shows "userTable_equals_loop t1 t2 i =
     Some (\<forall>j. i \<le> j \<and> j < size' t2 \<longrightarrow> username (users t2 ! j) \<in> set (map username (users t1)))"
proof (induction n \<equiv> "size' t1 - i" arbitrary: i)
  case 0
  then show ?case using assms(3) by (subst userTable_equals_loop.simps) auto
next
  case (Suc n)
  then have in1: "i < size' t1" by simp
  then have in2: "i < size' t2" using assms(3) by simp
  have e: "element_at t2 i = Some (users t2 ! i)"
    using valid_table_element_at [OF assms(2) in2] .
  obtain s where s: "username (users t2 ! i) = Str s"
    using valid_table_username [OF assms(2) in2] by (cases "username (users t2 ! i)") auto
  have rec: "userTable_equals_loop t1 t2 (i + 1) =
      Some (\<forall>j. i + 1 \<le> j \<and> j < size' t2 \<longrightarrow> username (users t2 ! j) \<in> set (map username (users t1)))"
    using Suc by (intro Suc(1)) auto
  show ?case
  proof (cases "Str s \<in> set (map username (users t1))")
    case False
    have "\<not> (\<forall>j. i \<le> j \<and> j < size' t2 \<longrightarrow> username (users t2 ! j) \<in> set (map username (users t1)))"
      using False s in2 by (intro notI) (metis le_refl)
    then show ?thesis
      using in1 e s find_absent [OF assms(1) False]
      by (subst userTable_equals_loop.simps) simp
  next
    case True
    obtain k where f: "userTable_find t1 (Str s) = Some (Some k)"
      using find_present [OF assms(1) True] by blast
    have "(\<forall>j. i + 1 \<le> j \<and> j < size' t2 \<longrightarrow> username (users t2 ! j) \<in> set (map username (users t1)))
        = (\<forall>j. i \<le> j \<and> j < size' t2 \<longrightarrow> username (users t2 ! j) \<in> set (map username (users t1)))"
      using True s by (intro all_from_Suc) simp
    then show ?thesis
      using in1 e s f rec by (subst userTable_equals_loop.simps) simp
  qed
qed

lemma equals_valid:
  assumes "valid_table t1" "valid_table t2"
  shows "userTable_equals t1 t2 =
     Some (size' t1 = size' t2 \<and> set (map username (users t2)) \<subseteq> set (map username (users t1)))"
proof (cases "size' t1 = size' t2")
  case False
  then show ?thesis by (simp add: userTable_equals_def)
next
  case True
  show ?thesis
    using True equals_loop_valid [OF assms True, of 0]
      subset_nth [of "users t2" username "set (map username (users t1))"]
      valid_table_length [OF assms(2)]
    by (simp add: userTable_equals_def)
qed

text \<open>
  C9. For valid tables \<open>t1\<close> and \<open>t2\<close>, \<^verbatim>\<open>userTable_equals\<close> returns true exactly when
  the sizes are equal and every username of \<open>t2\<close> occurs in \<open>t1\<close>. The result depends on
  the sizes and on the sets of usernames only: tables \<open>t1'\<close> and \<open>t2'\<close> with the same sizes
  and the same usernames, in any order and with any names, mails and favorites, compare
  as \<open>t1\<close> and \<open>t2\<close> do.
\<close>

theorem userTable_equals_usernames:
  assumes "valid_table t1" "valid_table t2"
  shows "userTable_equals t1 t2 =
       Some (size' t1 = size' t2 \<and>
             set (map username (users t2)) \<subseteq> set (map username (users t1))) \<and>
     (valid_table t1' \<and> valid_table t2' \<and> size' t1' = size' t1 \<and> size' t2' = size' t2 \<and>
      set (map username (users t1')) = set (map username (users t1)) \<and>
      set (map username (users t2')) = set (map username (users t2)) \<longrightarrow>
      userTable_equals t1' t2' = userTable_equals t1 t2)"
proof (intro conjI impI)
  show "userTable_equals t1 t2 =
       Some (size' t1 = size' t2 \<and>
             set (map username (users t2)) \<subseteq> set (map username (users t1)))"
    by (rule equals_valid [OF assms])
next
  assume a: "valid_table t1' \<and> valid_table t2' \<and> size' t1' = size' t1 \<and> size' t2' = size' t2 \<and>
      set (map username (users t1')) = set (map username (users t1)) \<and>
      set (map username (users t2')) = set (map username (users t2))"
  then have "userTable_equals t1' t2' =
       Some (size' t1' = size' t2' \<and>
             set (map username (users t2')) \<subseteq> set (map username (users t1')))"
    by (intro equals_valid) simp_all
  then show "userTable_equals t1' t2' = userTable_equals t1 t2"
    using a equals_valid [OF assms] by simp
qed

theorem userTable_equals_usernames_witness:
  "valid_table table_ab \<and> valid_table table_ba \<and>
   users table_ab \<noteq> users table_ba \<and>
   map name (users table_ab) \<noteq> rev (map name (users table_ba)) \<and>
   userTable_equals table_ab table_ba = Some True"
proof -
  have v1: "valid_table table_ab"
    by (simp add: valid_table_def valid_user_def table_ab_def user_alice_def user_bob_def)
  have v2: "valid_table table_ba"
    by (simp add: valid_table_def valid_user_def table_ba_def user_alice_def user_bob_def)
  have d: "users table_ab \<noteq> users table_ba \<and>
      map name (users table_ab) \<noteq> rev (map name (users table_ba))"
    by (simp add: users_def table_ab_def table_ba_def user_alice_def user_bob_def)
  have "userTable_equals table_ab table_ba =
       Some (size' table_ab = size' table_ba \<and>
             set (map username (users table_ba)) \<subseteq> set (map username (users table_ab)))"
    using userTable_equals_usernames [OF v1 v2] by simp
  then have "userTable_equals table_ab table_ba = Some True"
    by (simp add: users_def table_ab_def table_ba_def user_alice_def user_bob_def)
  then show ?thesis using v1 v2 d by simp
qed

subsection \<open>The return code of a copy\<close>

lemma user_init_strings:
  "\<exists>e object1 h1. user_init h object (Str u) (Str n) (Str m) = Some (e, object1, h1)"
  by (auto simp: user_init_def Let_def split: prod.splits)

lemma user_cpy_result: "user_cpy h dst src = Some r \<Longrightarrow> fst r = OK"
  by (auto simp: user_cpy_def split: Option.bind_splits prod.splits)

lemma remove_loop_no_early:
  "userTable_remove_loop h table user i found \<noteq> Some (Inl early)"
proof (induction h table user i found rule: userTable_remove_loop.induct)
  case (1 h table user i found)
  show ?case
  proof (cases "i < size' table")
    case False
    then show ?thesis by (subst userTable_remove_loop.simps) simp
  next
    case in_range: True
    show ?thesis
    proof (cases found)
      case True
      show ?thesis
        apply (subst userTable_remove_loop.simps)
        using in_range True "1.IH"(1)
        by (auto split: Option.bind_splits prod.splits dest: user_cpy_result)
    next
      case False
      show ?thesis
        apply (subst userTable_remove_loop.simps)
        using in_range False "1.IH"(2,3)
        by (auto split: Option.bind_splits)
    qed
  qed
qed

text \<open>
  C10. \<^verbatim>\<open>user_cpy\<close> returns \<^verbatim>\<open>OK\<close> whenever it returns: also when the
  \<^verbatim>\<open>user_init\<close> inside it returned \<^verbatim>\<open>ERR_MEMORY_ERROR\<close>, and it does return for
  initialised users. So the loop of \<^verbatim>\<open>userTable_remove\<close> never takes its
  \<^verbatim>\<open>return ERR_MEMORY_ERROR\<close>, and when \<^verbatim>\<open>userTable_remove\<close> returns
  \<^verbatim>\<open>ERR_MEMORY_ERROR\<close> the loop had ended and the final \<^verbatim>\<open>realloc\<close> failed.
\<close>

theorem user_cpy_always_OK:
  "(\<forall>r. user_cpy h dst src = Some r \<longrightarrow> fst r = OK) \<and>
   (\<forall>dst1 dst2 h2. user_free dst = Some dst1 \<and>
        user_init h dst1 (username src) (name src) (mail src) = Some (ERR_MEMORY_ERROR, dst2, h2) \<longrightarrow>
        user_cpy h dst src = Some (OK, dst2, h2)) \<and>
   (valid_user dst \<and> valid_user src \<longrightarrow> (\<exists>dst2 h2. user_cpy h dst src = Some (OK, dst2, h2))) \<and>
   (\<forall>early. userTable_remove_loop h table user i found \<noteq> Some (Inl early)) \<and>
   (\<forall>table' h'. userTable_remove h table user = Some (ERR_MEMORY_ERROR, table', h') \<longrightarrow>
        elements table' = None \<and>
        (\<exists>table1 h1. userTable_remove_loop h table user 0 False = Some (Inr (True, table1, h1)) \<and>
            fst (realloc h1 (elements table1) (size' table1 - 1)) = None))"
proof (intro conjI allI impI)
  fix r assume "user_cpy h dst src = Some r"
  then show "fst r = OK" by (rule user_cpy_result)
next
  fix dst1 dst2 h2
  assume "user_free dst = Some dst1 \<and>
    user_init h dst1 (username src) (name src) (mail src) = Some (ERR_MEMORY_ERROR, dst2, h2)"
  then show "user_cpy h dst src = Some (OK, dst2, h2)" by (simp add: user_cpy_def)
next
  assume v: "valid_user dst \<and> valid_user src"
  then obtain dst1 where f: "user_free dst = Some dst1"
    by (cases "username dst"; cases "name dst"; cases "mail dst"; cases "favorites dst")
      (auto simp: valid_user_def user_free_def)
  obtain u n m where "username src = Str u" "name src = Str n" "mail src = Str m"
    using v
    by (cases "username src"; cases "name src"; cases "mail src") (auto simp: valid_user_def)
  then obtain e dst2 h2 where
    "user_init h dst1 (username src) (name src) (mail src) = Some (e, dst2, h2)"
    using user_init_strings [of h dst1 u n m] by auto
  then show "\<exists>dst2 h2. user_cpy h dst src = Some (OK, dst2, h2)"
    using f by (simp add: user_cpy_def)
next
  fix early
  show "userTable_remove_loop h table user i found \<noteq> Some (Inl early)"
    by (rule remove_loop_no_early)
next
  fix table' h'
  assume r: "userTable_remove h table user = Some (ERR_MEMORY_ERROR, table', h')"
  then obtain x where x: "userTable_remove_loop h table user 0 False = Some x"
    by (auto simp: userTable_remove_def split: Option.bind_splits)
  then obtain f t1 h1 where x1: "x = Inr (f, t1, h1)"
    using remove_loop_no_early [of h table user 0 False] by (cases x) auto
  have f: "f" using r x x1 by (auto simp: userTable_remove_def split: if_splits)
  have "elements table' = None \<and> fst (realloc h1 (elements t1) (size' t1 - 1)) = None"
    using r x x1 f
    by (auto simp: userTable_remove_def Let_def split: if_splits prod.splits)
  then show "elements table' = None" 
    and "\<exists>table1 h1. userTable_remove_loop h table user 0 False = Some (Inr (True, table1, h1)) \<and>
            fst (realloc h1 (elements table1) (size' table1 - 1)) = None"
    using x x1 f by auto
qed

theorem user_cpy_always_OK_witness:
  "valid_user user_alice \<and> valid_user user_bob \<and>
   user_free user_alice = Some \<lparr>username = NULL, name = NULL, mail = NULL, favorites = Stack []\<rparr> \<and>
   user_init [False] \<lparr>username = NULL, name = NULL, mail = NULL, favorites = Stack []\<rparr>
       (username user_bob) (name user_bob) (mail user_bob)
     = Some (ERR_MEMORY_ERROR, failed_slot (Stack []), []) \<and>
   user_cpy [False] user_alice user_bob = Some (OK, failed_slot (Stack []), []) \<and>
   userTable_remove [False] table_ab user_alice
     = Some (OK, \<lparr>elements = Some [failed_slot (Stack [])], size' = 1\<rparr>, []) \<and>
   userTable_remove [True, True, True, False] table_ab user_alice
     = Some (ERR_MEMORY_ERROR, \<lparr>elements = None, size' = 1\<rparr>, []) \<and>
   (\<exists>table1 h1. userTable_remove_loop [True, True, True, False] table_ab user_alice 0 False
        = Some (Inr (True, table1, h1)) \<and>
      fst (realloc h1 (elements table1) (size' table1 - 1)) = None)"
proof -
  have v: "valid_user user_alice \<and> valid_user user_bob"
    by (simp add: valid_user_def user_alice_def user_bob_def)
  have f: "user_free user_alice
      = Some \<lparr>username = NULL, name = NULL, mail = NULL, favorites = Stack []\<rparr>"
    by code_simp
  have i: "user_init [False] \<lparr>username = NULL, name = NULL, mail = NULL, favorites = Stack []\<rparr>
       (username user_bob) (name user_bob) (mail user_bob)
     = Some (ERR_MEMORY_ERROR, failed_slot (Stack []), [])"
    by code_simp
  have c: "user_cpy [False] user_alice user_bob = Some (OK, failed_slot (Stack []), [])"
    using user_cpy_always_OK [of "[False]" user_alice user_bob table_ab user_alice 0 False] f i
    by blast
  have r: "userTable_remove [False] table_ab user_alice
     = Some (OK, \<lparr>elements = Some [failed_slot (Stack [])], size' = 1\<rparr>, [])"
    by code_simp
  have m: "userTable_remove [True, True, True, False] table_ab user_alice
     = Some (ERR_MEMORY_ERROR, \<lparr>elements = None, size' = 1\<rparr>, [])"
    by code_simp
  have l: "\<exists>table1 h1. userTable_remove_loop [True, True, True, False] table_ab user_alice 0 False
        = Some (Inr (True, table1, h1)) \<and>
      fst (realloc h1 (elements table1) (size' table1 - 1)) = None"
    using user_cpy_always_OK [of "[True, True, True, False]" user_alice user_bob table_ab
        user_alice 0 False] m
    by blast
  show ?thesis using v f i c r m l by simp
qed

subsection \<open>Usernames of reachable tables\<close>

lemma malloc_cases: obtains a h1 where "malloc h = (a, h1)"
  by (cases "malloc h") auto

lemma user_init_username:
  assumes "user_init h obj u n m = Some (e, obj', h')"
  shows "username obj' = u \<or> \<not> is_string (username obj')"
  using assms
  by (auto simp: user_init_def favoriteStack_create_def Let_def
      split: cstring.splits prod.splits if_splits)

lemma user_cpy_username:
  assumes "user_cpy h dst src = Some (e, d, h')"
  shows "username d = username src \<or> \<not> is_string (username d)"
  using assms user_init_username
  by (auto simp: user_cpy_def split: Option.bind_splits prod.splits)

lemma distinct_replace:
  assumes "distinct (filter P (xs @ a # ys))" "b = a \<or> \<not> P b"
  shows "distinct (filter P (xs @ b # ys))"
proof (cases "P b")
  case True
  then show ?thesis using assms by simp
next
  case False
  then show ?thesis using assms by (cases "P a") auto
qed

lemma distinct_drop_one:
  assumes "distinct (filter P (xs @ a # ys))"
  shows "distinct (filter P (xs @ ys))"
  using assms by (auto split: if_splits)

lemma find_loop_none:
  assumes "elements t = Some es" "size' t = length es"
  shows "userTable_find_loop t uname i = Some None \<Longrightarrow>
    \<forall>j. i \<le> j \<and> j < length es \<longrightarrow> strcmp0 (username (es ! j)) uname = Some False"
proof (induction n \<equiv> "length es - i" arbitrary: i)
  case 0
  then show ?case by auto
next
  case (Suc n)
  then have in_range: "i < length es" by simp
  have e: "element_at t i = Some (es ! i)"
    using assms in_range by (simp add: element_at_def)
  from Suc(3) in_range assms(2) e
  have c: "strcmp0 (username (es ! i)) uname = Some False"
    and rec: "userTable_find_loop t uname (i + 1) = Some None"
    by (subst (asm) userTable_find_loop.simps; auto split: Option.bind_splits if_splits)+
  have "\<forall>j. i + 1 \<le> j \<and> j < length es \<longrightarrow> strcmp0 (username (es ! j)) uname = Some False"
    using Suc(2) rec by (intro Suc(1)) auto
  then show ?case
    using c by (metis Suc_eq_plus1 Suc_leI le_neq_implies_less)
qed

lemma strcmp0_False: "strcmp0 a b = Some False \<Longrightarrow> is_string a \<and> is_string b \<and> a \<noteq> b"
  by (cases a; cases b) auto

lemma find_none_fresh:
  assumes "elements t = Some es" "size' t = length es" "userTable_find t uname = Some None"
  shows "uname \<notin> set (map username es)"
proof
  assume "uname \<in> set (map username es)"
  then obtain j where j: "j < length es" "username (es ! j) = uname"
    by (auto simp: in_set_conv_nth)
  have "userTable_find_loop t uname 0 = Some None"
    using assms(3) by (auto simp: userTable_find_def split: if_splits)
  then have "strcmp0 (username (es ! j)) uname = Some False"
    using find_loop_none [OF assms(1,2), of uname 0] j(1) by simp
  then have "strcmp0 uname uname = Some False" unfolding j(2) .
  then show False using strcmp0_False [of uname uname] by simp
qed

lemma find_some_size:
  assumes "userTable_find t uname = Some None" "size' t \<noteq> 0"
  shows "elements t \<noteq> None"
proof -
  have "userTable_find_loop t uname 0 = Some None"
    using assms(1) by (auto simp: userTable_find_def split: if_splits)
  then show ?thesis
    using assms(2)
    by (subst (asm) userTable_find_loop.simps) (auto simp: element_at_def split: Option.bind_splits option.splits)
qed

lemma userTable_add_unfold:
  assumes "userTable_find t (username u) = Some None"
    "(if size' t = 0 then realloc h None 1 else realloc h (elements t) (size' t + 1)) = (blk, h1)"
  shows "userTable_add h t u =
    (case blk of
       None \<Rightarrow> Some (ERR_MEMORY_ERROR, t\<lparr>size' := size' t + 1, elements := None\<rparr>, h1)
     | Some es \<Rightarrow>
         do {
           slot \<leftarrow> (if size' t < length es then Some (es ! size' t) else None);
           (e, slot1, h2) \<leftarrow> user_init h1 slot (username u) (name u) (mail u);
           Some (OK, t\<lparr>size' := size' t + 1, elements := Some (es[size' t := slot1])\<rparr>, h2)
         })"
proof (cases "size' t = 0")
  case True
  then show ?thesis
    using assms by (cases blk) (simp_all add: userTable_add_def element_at_def)
next
  case False
  then show ?thesis
    using assms by (cases blk) (simp_all add: userTable_add_def element_at_def)
qed

lemma add_inv:
  assumes "table_inv t" "userTable_add h t u = Some (e, t', h')"
  shows "table_inv t'"
proof -
  obtain f where f: "userTable_find t (username u) = Some f"
    using assms(2) by (auto simp: userTable_add_def split: Option.bind_splits)
  show ?thesis
  proof (cases f)
    case (Some k)
    then have "t' = t" using assms(2) f by (simp add: userTable_add_def)
    then show ?thesis using assms(1) by simp
  next
    case None
    obtain a h1 where m: "malloc h = (a, h1)" by (rule malloc_cases)
    define es0 where "es0 = (if size' t = 0 then [] else the (elements t))"
    have es0: "size' t = length es0 \<and> distinct (filter is_string (map username es0))
        \<and> username u \<notin> set (map username es0)"
    proof (cases "size' t = 0")
      case True
      then show ?thesis by (simp add: es0_def)
    next
      case False
      then obtain es where es: "elements t = Some es"
        using find_some_size [of t "username u"] f None by auto
      then have "size' t = length es" "distinct (filter is_string (map username es))"
        using assms(1) by (auto simp: table_inv_def)
      then show ?thesis
        using find_none_fresh [OF es, of "username u"] f None es False by (simp add: es0_def)
    qed
    have blk: "(if size' t = 0 then realloc h None 1 else realloc h (elements t) (size' t + 1))
         = ((if a then Some (es0 @ [fresh_slot]) else None), h1)"
    proof (cases "size' t = 0")
      case True
      then show ?thesis using m by (simp add: realloc_def es0_def)
    next
      case False
      then obtain es where es: "elements t = Some es"
        using find_some_size [of t "username u"] f None by auto
      have eq: "es0 = es" using False es by (simp add: es0_def)
      have len: "length es = size' t" using assms(1) es by (simp add: table_inv_def)
      show ?thesis unfolding eq using False m es len by (simp add: realloc_def)
    qed
    note unf = userTable_add_unfold [OF f [unfolded None] blk]
    show ?thesis
    proof (cases a)
      case False
      then have "elements t' = None"
        using assms(2) unf by auto
      then show ?thesis by (simp add: table_inv_def)
    next
      case True
      then obtain e1 slot1 h2 where
        i: "user_init h1 fresh_slot (username u) (name u) (mail u) = Some (e1, slot1, h2)"
        and t': "t' = t\<lparr>size' := size' t + 1, elements := Some (es0 @ [slot1])\<rparr>"
        using assms(2) unf es0
        by (auto simp: nth_append split: Option.bind_splits prod.splits)
      have "username slot1 = username u \<or> \<not> is_string (username slot1)"
        using user_init_username [OF i] .
      then have "distinct (filter is_string (map username (es0 @ [slot1])))"
        using es0 by auto
      then show ?thesis using t' es0 by (simp add: table_inv_def)
    qed
  qed
qed

lemma remove_loop_found_inv:
  assumes "userTable_remove_loop h t user i True = Some (Inr (f, t', h'))"
    "elements t = Some es" "size' t = length es" "1 \<le> i" "i \<le> length es"
    "distinct (filter is_string (map username (take (i - 1) es @ drop i es)))"
  shows "f \<and> size' t' = size' t \<and> (\<exists>es'. elements t' = Some es' \<and> length es' = length es \<and>
      distinct (filter is_string (map username (take (length es - 1) es'))))"
  using assms
proof (induction n \<equiv> "length es - i" arbitrary: h t es i)
  case 0
  then have i: "i = length es" by simp
  then have "Some (Inr (f, t', h')) = Some (Inr (True, t, h))"
    using 0(2,4) by (subst (asm) userTable_remove_loop.simps) simp
  then show ?case using 0 i by simp
next
  case (Suc n)
  then have in_range: "i < length es" by simp
  have dst: "element_at t (i - 1) = Some (es ! (i - 1))"
    and src: "element_at t i = Some (es ! i)"
    using Suc(4) in_range by (simp_all add: element_at_def)
  from Suc(3) in_range Suc(5,6) dst src Suc(4)
  obtain e1 dst1 h1 where
    c: "user_cpy h (es ! (i - 1)) (es ! i) = Some (e1, dst1, h1)" and
    rec: "userTable_remove_loop h1 (t\<lparr>elements := Some (es[i - 1 := dst1])\<rparr>) user (i + 1) True
       = Some (Inr (f, t', h'))"
    by (subst (asm) userTable_remove_loop.simps)
      (auto split: Option.bind_splits prod.splits if_splits)
  define es1 where "es1 = es[i - 1 := dst1]"
  have d: "drop i es = es ! i # drop (i + 1) es"
    using in_range by (simp add: Cons_nth_drop_Suc)
  have tk: "take (i + 1 - 1) es1 = take (i - 1) es @ [dst1]"
    using Suc(6) in_range by (simp add: es1_def take_Suc_conv_app_nth [of "i - 1", simplified] upd_conv_take_nth_drop) 
  have dr: "drop (i + 1) es1 = drop (i + 1) es"
    by (simp add: es1_def)
  have u: "username dst1 = username (es ! i) \<or> \<not> is_string (username dst1)"
    using user_cpy_username [OF c] .
  have "distinct (filter is_string (map username (take (i - 1) es @ es ! i # drop (i + 1) es)))"
    using Suc(8) d by simp
  then have "distinct (filter is_string (map username (take (i - 1) es @ dst1 # drop (i + 1) es)))"
    using u distinct_replace [of is_string "map username (take (i - 1) es)" "username (es ! i)"
        "map username (drop (i + 1) es)" "username dst1"]
    by simp
  then have dist: "distinct (filter is_string (map username (take (i + 1 - 1) es1 @ drop (i + 1) es1)))"
    using tk dr by simp
  have "f \<and> size' t' = size' (t\<lparr>elements := Some es1\<rparr>) \<and>
     (\<exists>es'. elements t' = Some es' \<and> length es' = length es1 \<and>
      distinct (filter is_string (map username (take (length es1 - 1) es'))))"
    using Suc(2) rec Suc(5) in_range dist
    by (intro Suc(1) [of es1 "i + 1" h1 "t\<lparr>elements := Some es1\<rparr>"]) (auto simp: es1_def)
  then show ?case by (simp add: es1_def)
qed


lemma remove_loop_search_inv:
  assumes "userTable_remove_loop h t user i False = Some (Inr (f, t', h'))"
    "elements t = Some es" "size' t = length es" "i \<le> length es"
    "distinct (filter is_string (map username es))"
  shows "(\<not> f \<and> t' = t) \<or>
     (f \<and> size' t' = size' t \<and> (\<exists>es'. elements t' = Some es' \<and> length es' = length es \<and>
      distinct (filter is_string (map username (take (length es - 1) es')))))"
  using assms(1,4)
proof (induction n \<equiv> "length es - i" arbitrary: i)
  case 0
  then have "Some (Inr (f, t', h')) = Some (Inr (False, t, h))"
    using assms(3) by (subst (asm) userTable_remove_loop.simps) simp
  then show ?case by simp
next
  case (Suc n)
  then have in_range: "i < length es" by simp
  have src: "element_at t i = Some (es ! i)"
    using assms(2) in_range by (simp add: element_at_def)
  from Suc(3) in_range assms(3) src
  obtain c where c: "strcmp0 (username (es ! i)) (username user) = Some c"
    and rec: "userTable_remove_loop h t user (i + 1) c = Some (Inr (f, t', h'))"
    by (subst (asm) userTable_remove_loop.simps)
      (auto split: Option.bind_splits if_splits)
  show ?case
  proof (cases c)
    case False
    then show ?thesis using Suc(2) rec in_range by (intro Suc(1)) auto
  next
    case True
    have "es = take i es @ es ! i # drop (i + 1) es"
      using in_range by (simp add: id_take_nth_drop)
    then have "distinct (filter is_string (map username (take i es @ es ! i # drop (i + 1) es)))"
      using assms(5) by simp
    then have "distinct (filter is_string (map username (take (i + 1 - 1) es @ drop (i + 1) es)))"
      using distinct_drop_one [of is_string "map username (take i es)" "username (es ! i)"
          "map username (drop (i + 1) es)"]
      by simp
    then show ?thesis
      using remove_loop_found_inv [of h t user "i + 1" f t' h' es] rec True assms(2,3) in_range
      by simp
  qed
qed

lemma remove_inv:
  assumes "table_inv t" "userTable_remove h t u = Some (e, t', h')"
  shows "table_inv t'"
proof -
  obtain r where r: "userTable_remove_loop h t u 0 False = Some r"
    using assms(2) by (auto simp: userTable_remove_def split: Option.bind_splits)
  then obtain f t1 h1 where r1: "r = Inr (f, t1, h1)"
    using remove_loop_no_early [of h t u 0 False] by (cases r) auto
  show ?thesis
  proof (cases f)
    case False
    have "t1 = t"
    proof (cases "elements t")
      case None
      then show ?thesis
        using r r1 False
        by (subst (asm) userTable_remove_loop.simps)
          (auto simp: element_at_def split: Option.bind_splits if_splits)
    next
      case (Some es)
      then show ?thesis
        using remove_loop_search_inv [of h t u 0 f t1 h1 es] r r1 False assms(1)
        by (auto simp: table_inv_def)
    qed
    then have "t' = t" using assms(2) r r1 False by (simp add: userTable_remove_def)
    then show ?thesis using assms(1) by simp
  next
    case True
    have ne: "elements t \<noteq> None"
    proof
      assume "elements t = None"
      then show False
        using r r1 True
        by (subst (asm) userTable_remove_loop.simps)
          (auto simp: element_at_def split: Option.bind_splits if_splits)
    qed
    then obtain es where es: "elements t = Some es" by auto
    then obtain es' where es': "size' t1 = size' t" "elements t1 = Some es'"
      "length es' = length es"
      "distinct (filter is_string (map username (take (length es - 1) es')))"
      using remove_loop_search_inv [of h t u 0 f t1 h1 es] r r1 True assms(1)
      by (auto simp: table_inv_def)
    have len: "size' t = length es" using assms(1) es by (simp add: table_inv_def)
    obtain a h2 where m: "malloc h1 = (a, h2)" by (rule malloc_cases)
    show ?thesis
    proof (cases "size' t - 1 = 0")
      case zero: True
      then have "elements t' = None"
        using assms(2) r r1 True es' by (auto simp: userTable_remove_def Let_def)
      then show ?thesis by (simp add: table_inv_def)
    next
      case False
      show ?thesis
      proof (cases a)
        case failed: False
        then have "elements t' = None"
          using assms(2) r r1 True es' False m
          by (auto simp: userTable_remove_def Let_def realloc_def)
        then show ?thesis by (simp add: table_inv_def)
      next
        case True
        then have "elements t' = Some (take (length es - 1) es') \<and> size' t' = length es - 1"
          using assms(2) r r1 \<open>f\<close> es' False m len
          by (auto simp: userTable_remove_def Let_def realloc_def)
        then show ?thesis using es' by (simp add: table_inv_def)
      qed
    qed
  qed
qed

lemma reachable_inv: "reachable t \<Longrightarrow> table_inv t"
proof (induction rule: reachable.induct)
  case reachable_init
  then show ?case by (simp add: table_inv_def userTable_init_def)
next
  case (reachable_add t h u e t' h')
  then show ?case using add_inv by blast
next
  case (reachable_remove t h u e t' h')
  then show ?case using remove_inv by blast
qed

lemma inv_usernames: "table_inv t \<Longrightarrow> distinct (usernames t)"
  by (auto simp: table_inv_def usernames_def users_def split: option.splits)

lemma valid_usernames: "valid_table t \<Longrightarrow> usernames t = map username (users t)"
  by (auto simp: valid_table_def usernames_def users_def valid_user_def list_all_iff
      split: option.splits intro!: filter_True)

text \<open>
  C2. In every table reachable from \<^verbatim>\<open>userTable_init\<close> by calls of
  \<^verbatim>\<open>userTable_add\<close> and \<^verbatim>\<open>userTable_remove\<close>, whatever the users and the outcomes
  of the allocations, the usernames are pairwise distinct; in a valid table these are the
  \<^verbatim>\<open>username\<close> fields of all its users. Adding a user whose username is in a valid
  table returns \<^verbatim>\<open>ERR_DUPLICATED\<close> and leaves the table, its size included, as it was.
\<close>

theorem reachable_usernames_distinct:
  assumes "reachable table"
  shows "distinct (usernames table) \<and>
    (valid_table table \<longrightarrow> distinct (map username (users table))) \<and>
    (valid_table table \<and> username user = Str s \<and> Str s \<in> set (map username (users table)) \<longrightarrow>
       userTable_add h table user = Some (ERR_DUPLICATED, table, h))"
proof (intro conjI impI)
  show d: "distinct (usernames table)"
    using assms by (intro inv_usernames reachable_inv)
  show "distinct (map username (users table))" if "valid_table table"
    using d valid_usernames [OF that] by simp
  show "userTable_add h table user = Some (ERR_DUPLICATED, table, h)"
    if "valid_table table \<and> username user = Str s \<and> Str s \<in> set (map username (users table))"
  proof -
    have v: "valid_table table" and m: "Str s \<in> set (map username (users table))"
      using that by simp_all
    obtain k where "userTable_find table (Str s) = Some (Some k)"
      using find_present [OF v m] by blast
    then show ?thesis using that by (simp add: userTable_add_def)
  qed
qed

theorem reachable_usernames_distinct_witness:
  "reachable table_a \<and> valid_table table_a \<and>
   username (user_alice\<lparr>name := Str ''Alicia''\<rparr>) = Str ''alice'' \<and>
   Str ''alice'' \<in> set (map username (users table_a)) \<and>
   distinct (usernames table_a) \<and>
   userTable_add [False] table_a (user_alice\<lparr>name := Str ''Alicia''\<rparr>)
     = Some (ERR_DUPLICATED, table_a, [False]) \<and> size' table_a = 1"
proof -
  have "userTable_add [] userTable_init user_alice = Some (OK, table_a, [])"
    by code_simp
  then have r: "reachable table_a"
    using reachable_add [OF reachable_init] by blast
  have v: "valid_table table_a"
    by (simp add: valid_table_def valid_user_def table_a_def user_alice_def)
  have u: "username (user_alice\<lparr>name := Str ''Alicia''\<rparr>) = Str ''alice''"
    by (simp add: user_alice_def)
  have m: "Str ''alice'' \<in> set (map username (users table_a))"
    by (simp add: users_def table_a_def user_alice_def)
  have s: "size' table_a = 1" by (simp add: table_a_def)
  show ?thesis
    using reachable_usernames_distinct [OF r, of "user_alice\<lparr>name := Str ''Alicia''\<rparr>"
        "''alice''" "[False]"] r v u m s
    by simp
qed

subsection \<open>A failed growth of the block\<close>

lemma add_failed_growth:
  assumes "valid_table t" "username u = Str s" "Str s \<notin> set (map username (users t))"
    "\<not> fst (malloc h)"
  shows "userTable_add h t u =
     Some (ERR_MEMORY_ERROR, t\<lparr>size' := size' t + 1, elements := None\<rparr>, snd (malloc h))"
proof -
  have f: "userTable_find t (username u) = Some None"
    using find_absent [OF assms(1,3)] assms(2) by simp
  have blk: "(if size' t = 0 then realloc h None 1 else realloc h (elements t) (size' t + 1))
      = (None, snd (malloc h))"
    using assms(4) by (cases "malloc h") (simp add: realloc_def)
  show ?thesis using userTable_add_unfold [OF f blk] by simp
qed

text \<open>
  C1. The code at a failed growth: \<^verbatim>\<open>userTable_add\<close> has already increased the size
  and has overwritten the block pointer by the null result, so after
  \<^verbatim>\<open>ERR_MEMORY_ERROR\<close> the size is one more than before and the table has no block
  (for every valid table: lemma \<open>add_failed_growth\<close>).
\<close>

theorem userTable_add_failed_growth:
  "userTable_add [False] table_ab user_carol
     = Some (ERR_MEMORY_ERROR, \<lparr>elements = None, size' = 3\<rparr>, []) \<and>
   userTable_add [False] userTable_init user_carol
     = Some (ERR_MEMORY_ERROR, \<lparr>elements = None, size' = 1\<rparr>, []) \<and>
   size' table_ab = 2 \<and> size' userTable_init = 0"
  by code_simp

subsection \<open>Adding, then finding\<close>

text \<open>
  When every allocation succeeds, adding a user whose username is not in a valid table
  appends a copy of its three strings with an empty stack, and the table stays valid.
\<close>

lemma user_init_succeeds:
  "user_init [] object (Str u) (Str n) (Str m)
     = Some (OK, \<lparr>username = Str u, name = Str n, mail = Str m, favorites = Stack []\<rparr>, [])"
  by (simp add: user_init_def favoriteStack_create_def)

lemma valid_table_users: "valid_table t \<Longrightarrow> list_all valid_user (users t)"
  by (auto simp: valid_table_def users_def split: option.splits)

lemma add_succeeds:
  assumes "valid_table t" "username u = Str s" "name u = Str n" "mail u = Str m"
    "Str s \<notin> set (map username (users t))"
  shows "userTable_add [] t u =
     Some (OK, t\<lparr>size' := size' t + 1,
                 elements := Some (users t @ [\<lparr>username = Str s, name = Str n, mail = Str m,
                                               favorites = Stack []\<rparr>])\<rparr>, [])"
proof -
  have f: "userTable_find t (username u) = Some None"
    using find_absent [OF assms(1,5)] assms(2) by simp
  have len: "length (users t) = size' t" by (rule valid_table_length [OF assms(1)])
  have blk: "(if size' t = 0 then realloc [] None 1 else realloc [] (elements t) (size' t + 1))
      = (Some (users t @ [fresh_slot]), [])"
    using assms(1)
    by (auto simp: realloc_def valid_table_def users_def split: option.splits)
  have upd: "(users t @ [fresh_slot])[size' t := x] = users t @ [x]" for x
    unfolding len [symmetric] by simp
  show ?thesis
    using userTable_add_unfold [OF f blk] len assms(2,3,4)
    by (simp add: nth_append user_init_succeeds upd)
qed

lemma add_then_find:
  assumes "valid_table t" "username u = Str s" "name u = Str n" "mail u = Str m"
    "Str s \<notin> set (map username (users t))"
  shows "\<exists>t'. userTable_add [] t u = Some (OK, t', []) \<and> valid_table t' \<and>
      size' t' = size' t + 1 \<and> users t' = users t @ [u\<lparr>favorites := Stack []\<rparr>] \<and>
      userTable_find t' (username u) = Some (Some (size' t)) \<and>
      user_equals (users t' ! size' t) u = Some True"
proof -
  define new where "new = u\<lparr>favorites := Stack []\<rparr>"
  have new: "new = \<lparr>username = Str s, name = Str n, mail = Str m, favorites = Stack []\<rparr>"
    using assms(2,3,4) by (cases u) (simp add: new_def)
  define t' where "t' = t\<lparr>size' := size' t + 1, elements := Some (users t @ [new])\<rparr>"
  have len: "length (users t) = size' t" by (rule valid_table_length [OF assms(1)])
  have res: "userTable_add [] t u = Some (OK, t', [])"
    using add_succeeds [OF assms] by (simp add: t'_def new)
  have v: "valid_table t'"
    using valid_table_users [OF assms(1)] len
    by (simp add: t'_def valid_table_def new valid_user_def)
  have us: "users t' = users t @ [new]" using len by (simp add: t'_def users_def)
  have k: "size' t < size' t'" by (simp add: t'_def)
  have at: "users t' ! size' t = new" using us len by (simp add: nth_append)
  have before: "\<forall>j. 0 \<le> j \<and> j < size' t \<longrightarrow> username (users t' ! j) \<noteq> Str s"
    using absent_nth [OF assms(1,5)] us len by (simp add: nth_append)
  have "userTable_find_loop t' (Str s) 0 = Some (Some (size' t))"
    using at before by (intro find_loop_present [OF v k]) (simp_all add: new)
  then have f: "userTable_find t' (username u) = Some (Some (size' t))"
    using assms(2) by (simp add: userTable_find_def)
  have e: "user_equals (users t' ! size' t) u = Some True"
    using at assms(2,3,4) by (simp add: user_equals_def new)
  show ?thesis
    using res v us f e by (intro exI [of _ t']) (simp add: t'_def new_def)
qed

text \<open>
  C3. The code when the block is obtained and the first allocation of \<^verbatim>\<open>user_init\<close>
  fails: \<^verbatim>\<open>userTable_add\<close> drops the \<^verbatim>\<open>ERR_MEMORY_ERROR\<close> of \<^verbatim>\<open>user_init\<close> and
  returns \<^verbatim>\<open>OK\<close>; the new slot holds no username, and \<^verbatim>\<open>userTable_find\<close> with the
  added username compares against a null pointer. (When every allocation succeeds the
  added user is found, equal in its three strings: lemma \<open>add_then_find\<close>.)
\<close>

theorem userTable_add_OK_without_user:
  "userTable_add [True, False] userTable_init user_alice
     = Some (OK, \<lparr>elements = Some [failed_slot NoStack], size' = 1\<rparr>, []) \<and>
   userTable_find \<lparr>elements = Some [failed_slot NoStack], size' = 1\<rparr> (username user_alice) = None"
  by code_simp

subsection \<open>The favorite genre\<close>

text \<open>
  C4. The code on an empty stack: the result is \<^verbatim>\<open>GENRE_NOT_FOUND\<close> only if the value
  read from the uninitialised \<^verbatim>\<open>maxOcurrences\<close> is not negative; if it is negative the
  first comparison \<^verbatim>\<open>0 > maxOcurrences\<close> succeeds and the result is genre 0.
\<close>

theorem user_getFavoriteGenre_empty:
  "user_getFavoriteGenre GENRE_NOT_FOUND maxOcurrences0 (object\<lparr>favorites := Stack []\<rparr>) =
     Some (if maxOcurrences0 < 0 then 0 else GENRE_NOT_FOUND)"
  by (simp add: user_getFavoriteGenre_def genre_max_loop.simps eval_nat_numeral)

lemma occurrences_Cons:
  "occurrences (e # es) g = (if genre_of e = g then Suc (occurrences es g) else occurrences es g)"
  by (simp add: occurrences_def)

lemma occurrences_le: "occurrences es g \<le> length es"
  by (simp add: occurrences_def)

lemma genre_count_loop_eq:
  assumes "\<forall>e \<in> set es. 0 \<le> genre_of e \<and> genre_of e < 8" "length occ = 8"
    "\<forall>i < 8. occ ! i + int (occurrences es (int i)) \<le> INT_MAX"
  shows "genre_count_loop es occ g0 =
     Some (map (\<lambda>i. occ ! i + int (occurrences es (int i))) [0..<8],
           if es = [] then g0 else genre_of (last es))"
  using assms
proof (induction es arbitrary: occ g0)
  case Nil
  have "map (\<lambda>i. occ ! i) [0..<length occ] = occ" by (rule map_nth)
  then show ?case using Nil by (simp add: occurrences_def)
next
  case (Cons e es)
  define g where "g = genre_of e"
  have g: "0 \<le> g" "g < 8" using Cons(2) by (simp_all add: g_def)
  then have n: "nat g < 8" "int (nat g) = g" by simp_all
  have "occ ! nat g + int (occurrences (e # es) (int (nat g))) \<le> INT_MAX"
    using Cons(4) n(1) by blast
  then have lt: "occ ! nat g < INT_MAX"
    using n(2) by (simp add: occurrences_Cons g_def)
  define occ1 where "occ1 = occ[nat g := occ ! nat g + 1]"
  have len1: "length occ1 = 8" using Cons(3) by (simp add: occ1_def)
  have step: "occ1 ! i + int (occurrences es (int i)) = occ ! i + int (occurrences (e # es) (int i))"
    if "i < 8" for i
  proof (cases "i = nat g")
    case True
    then show ?thesis using that Cons(3) n by (simp add: occ1_def occurrences_Cons g_def)
  next
    case False
    then have "genre_of e \<noteq> int i" using n(2) by (auto simp: g_def)
    then show ?thesis using False by (simp add: occ1_def occurrences_Cons)
  qed
  have bound: "\<forall>i < 8. occ1 ! i + int (occurrences es (int i)) \<le> INT_MAX"
    using step Cons(4) by simp
  have rec: "genre_count_loop es occ1 g =
     Some (map (\<lambda>i. occ1 ! i + int (occurrences es (int i))) [0..<8],
           if es = [] then g else genre_of (last es))"
    using Cons(2) len1 bound by (intro Cons(1)) auto
  have m: "map (\<lambda>i. occ1 ! i + int (occurrences es (int i))) [0..<8]
      = map (\<lambda>i. occ ! i + int (occurrences (e # es) (int i))) [0..<8]"
    using step by (intro map_cong) auto
  show ?case
    using g lt rec m
    by (simp add: g_def [symmetric] genre_of_def [symmetric] occ1_def [symmetric] Let_def)
qed

lemma genre_max_loop_none:
  "\<forall>j. i \<le> j \<and> j < 8 \<longrightarrow> occ ! j \<le> mx \<Longrightarrow> genre_max_loop occ i tmp mx = tmp"
proof (induction n \<equiv> "8 - i" arbitrary: i)
  case 0
  then show ?case by (subst genre_max_loop.simps) simp
next
  case (Suc n)
  then have in_range: "i < 8" by simp
  have rec: "genre_max_loop occ (i + 1) tmp mx = tmp"
    using Suc by (intro Suc(1)) auto
  have "\<not> occ ! i > mx" using Suc(3) in_range by (simp add: not_less)
  then show ?case
    using in_range rec by (subst genre_max_loop.simps) simp
qed

lemma genre_max_loop_winner:
  assumes "k < 8" "\<forall>j. j < 8 \<longrightarrow> occ ! j \<le> occ ! k" "\<forall>j. j < k \<longrightarrow> occ ! j < occ ! k"
  shows "i \<le> k \<Longrightarrow> mx < occ ! k \<Longrightarrow> genre_max_loop occ i tmp mx = int k"
proof (induction n \<equiv> "k - i" arbitrary: i tmp mx)
  case 0
  then have i: "i = k" by simp
  have "genre_max_loop occ (k + 1) (int k) (occ ! k) = int k"
    using assms(2) by (intro genre_max_loop_none) auto
  then show ?case
    using i assms(1) 0(3) by (subst genre_max_loop.simps) simp
next
  case (Suc n)
  then have lt: "i < k" by simp
  then have in_range: "i < 8" using assms(1) by simp
  have below: "occ ! i < occ ! k" using assms(3) lt by simp
  have r1: "genre_max_loop occ (i + 1) (int i) (occ ! i) = int k"
    using Suc(2) lt below by (intro Suc(1)) auto
  have r2: "genre_max_loop occ (i + 1) tmp mx = int k"
    using Suc(2,4) lt by (intro Suc(1)) auto
  show ?case
    using in_range r1 r2 by (subst genre_max_loop.simps) simp
qed

lemma least_argmax:
  fixes f :: "nat \<Rightarrow> nat"
  shows "0 < n \<Longrightarrow> \<exists>k < n. (\<forall>j < n. f j \<le> f k) \<and> (\<forall>j < k. f j < f k)"
proof (induction n)
  case 0
  then show ?case by simp
next
  case (Suc n)
  show ?case
  proof (cases "n = 0")
    case True
    then show ?thesis by simp
  next
    case False
    then obtain k where k: "k < n" "\<forall>j < n. f j \<le> f k" "\<forall>j < k. f j < f k"
      using Suc by auto
    show ?thesis
    proof (cases "f n \<le> f k")
      case True
      then have "\<forall>j < Suc n. f j \<le> f k" using k(2) by (simp add: less_Suc_eq)
      then show ?thesis using k by (intro exI [of _ k]) simp
    next
      case False
      then have "\<forall>j < n. f j < f n" using k(2) by (meson le_less_trans not_le)
      then show ?thesis
        by (intro exI [of _ n]) (auto simp: less_Suc_eq intro: less_imp_le)
    qed
  qed
qed


lemma user_addFavorite_pushes:
  "user_addFavorite [] (object\<lparr>favorites := Stack es\<rparr>) f
     = Some (OK, object\<lparr>favorites := Stack (\<lparr>film = f\<rparr> # es)\<rparr>, [])"
  by (simp add: user_addFavorite_def)

lemma pushes_Drama_Action_Action:
  "do {
     (e1, object1, h1) \<leftarrow> user_addFavorite [] (object\<lparr>favorites := Stack []\<rparr>) (film_of drama);
     (e2, object2, h2) \<leftarrow> user_addFavorite h1 object1 (film_of action);
     (e3, object3, h3) \<leftarrow> user_addFavorite h2 object2 (film_of action);
     Some object3
   } = Some (object\<lparr>favorites := Stack [favorite_of action, favorite_of action, favorite_of drama]\<rparr>)"
  by (simp add: user_addFavorite_def favorite_of_def)

lemma getFavoriteGenre_winner:
  assumes "favorites object = Stack es"
    "\<forall>e \<in> set es. 0 \<le> genre_of e \<and> genre_of e < 8"
    "int (length es) \<le> INT_MAX"
    "k < 8" "\<forall>j < 8. occurrences es (int j) \<le> occurrences es (int k)"
    "\<forall>j < k. occurrences es (int j) < occurrences es (int k)"
    "maxOcurrences0 < int (occurrences es (int k))"
  shows "user_getFavoriteGenre GENRE_NOT_FOUND maxOcurrences0 object = Some (int k)"
proof -
  define occ where "occ = map (\<lambda>i. int (occurrences es (int i))) [0..<8]"
  have nth: "occ ! j = int (occurrences es (int j))" if "j < 8" for j
    using that unfolding occ_def by (subst nth_map) simp_all
  have bound: "\<forall>i < 8. replicate 8 (0::int) ! i + int (occurrences es (int i)) \<le> INT_MAX"
    using assms(3) occurrences_le [of es] by (simp add: order_trans [OF _ assms(3)])
  have cnt: "genre_count_loop es (replicate 8 0) GENRE_NOT_FOUND =
      Some (occ, if es = [] then GENRE_NOT_FOUND else genre_of (last es))"
    using genre_count_loop_eq [OF assms(2) _ bound, of GENRE_NOT_FOUND]
    by (simp add: occ_def cong: map_cong)
  have "genre_max_loop occ 0 tmp maxOcurrences0 = int k" for tmp
    using assms(4,5,6,7) nth
    by (intro genre_max_loop_winner) auto
  then show ?thesis
    using assms(1) cnt by (simp add: user_getFavoriteGenre_def)
qed

text \<open>
  C5, as the claim states it, fails: with one favorite of genre 0 pushed first and one of
  genre 1 pushed second, genre 1 is popped first and is the first to reach the greatest
  count 1, and the code returns genre 0.
\<close>

theorem user_getFavoriteGenre_tie_counterexample:
  "user_getFavoriteGenre (- 1) 0 (user_alice\<lparr>favorites := Stack [favorite_of 1, favorite_of 0]\<rparr>)
     = Some 0 \<and>
   spec_first_to_maximum (map genre_of [favorite_of 1, favorite_of 0]) = Some 1"
  by code_simp

text \<open>
  C5, amended. For a user with a non-empty favorites stack whose genres are among the
  eight indices 0..7, with fewer than \<^verbatim>\<open>INT_MAX\<close> entries, when the value read from
  \<^verbatim>\<open>maxOcurrences\<close> is below the count of some genre, the result is a genre of greatest
  count, and among the genres of greatest count the one of lowest index: the scan runs
  over the indices 0..7 with a strictly-greater comparison. Favorites pushed in the order
  Drama, Action, Action (from the top: Action, Action, Drama) yield Action when the value
  read is below 2.
\<close>

theorem user_getFavoriteGenre_lowest_index:
  "(favorites object = Stack es \<and> es \<noteq> [] \<and>
    (\<forall>e \<in> set es. 0 \<le> genre_of e \<and> genre_of e < 8) \<and>
    int (length es) \<le> INT_MAX \<and>
    (\<exists>j < 8. maxOcurrences0 < int (occurrences es (int j))) \<longrightarrow>
    (\<exists>k < 8. user_getFavoriteGenre GENRE_NOT_FOUND maxOcurrences0 object = Some (int k) \<and>
       (\<forall>j < 8. occurrences es (int j) \<le> occurrences es (int k)) \<and>
       (\<forall>j < k. occurrences es (int j) < occurrences es (int k)))) \<and>
   (0 \<le> drama \<and> drama < 8 \<and> 0 \<le> action \<and> action < 8 \<and> drama \<noteq> action \<and>
    maxOcurrences0 < 2 \<longrightarrow>
    user_getFavoriteGenre GENRE_NOT_FOUND maxOcurrences0
        (object\<lparr>favorites := Stack [favorite_of action, favorite_of action, favorite_of drama]\<rparr>)
      = Some action)"
proof (intro conjI impI)
  assume a: "favorites object = Stack es \<and> es \<noteq> [] \<and>
    (\<forall>e \<in> set es. 0 \<le> genre_of e \<and> genre_of e < 8) \<and>
    int (length es) \<le> INT_MAX \<and>
    (\<exists>j < 8. maxOcurrences0 < int (occurrences es (int j)))"
  obtain k where k: "k < 8" "\<forall>j < 8. occurrences es (int j) \<le> occurrences es (int k)"
      "\<forall>j < k. occurrences es (int j) < occurrences es (int k)"
    using least_argmax [of 8 "\<lambda>j. occurrences es (int j)"] by auto
  obtain j where j: "j < 8" "maxOcurrences0 < int (occurrences es (int j))"
    using a by blast
  have "int (occurrences es (int j)) \<le> int (occurrences es (int k))"
    using k(2) j(1) by simp
  then have below: "maxOcurrences0 < int (occurrences es (int k))"
    using j(2) by simp
  have "user_getFavoriteGenre GENRE_NOT_FOUND maxOcurrences0 object = Some (int k)"
    using a k below by (intro getFavoriteGenre_winner [of object es]) auto
  then show "\<exists>k < 8. user_getFavoriteGenre GENRE_NOT_FOUND maxOcurrences0 object = Some (int k) \<and>
       (\<forall>j < 8. occurrences es (int j) \<le> occurrences es (int k)) \<and>
       (\<forall>j < k. occurrences es (int j) < occurrences es (int k))"
    using k by blast
next
  assume a: "0 \<le> drama \<and> drama < 8 \<and> 0 \<le> action \<and> action < 8 \<and> drama \<noteq> action \<and>
    maxOcurrences0 < 2"
  define es where "es = [favorite_of action, favorite_of action, favorite_of drama]"
  have occ: "occurrences es g = (if g = action then 2 else if g = drama then 1 else 0)" for g
    using a by (auto simp: es_def occurrences_def genre_of_def favorite_of_def film_of_def)
  have k1: "int (nat action) = action" using a by simp
  have k2: "nat action < 8" using a by linarith
  note k = k1 k2
  have "user_getFavoriteGenre GENRE_NOT_FOUND maxOcurrences0 (object\<lparr>favorites := Stack es\<rparr>)
      = Some (int (nat action))"
  proof (rule getFavoriteGenre_winner [of _ es])
    show "favorites (object\<lparr>favorites := Stack es\<rparr>) = Stack es" by simp
    show "\<forall>e \<in> set es. 0 \<le> genre_of e \<and> genre_of e < 8"
      using a by (simp add: es_def genre_of_def favorite_of_def film_of_def)
    show "int (length es) \<le> INT_MAX" by (simp add: es_def INT_MAX_def)
    show "nat action < 8" by (rule k(2))
    show "\<forall>j < 8. occurrences es (int j) \<le> occurrences es (int (nat action))"
      using k(1) by (simp add: occ)
    show "\<forall>j < nat action. occurrences es (int j) < occurrences es (int (nat action))"
      using k(1) a by (auto simp: occ)
    show "maxOcurrences0 < int (occurrences es (int (nat action)))"
      using k(1) a by (simp add: occ)
  qed
  then show "user_getFavoriteGenre GENRE_NOT_FOUND maxOcurrences0
        (object\<lparr>favorites := Stack [favorite_of action, favorite_of action, favorite_of drama]\<rparr>)
      = Some action"
    using k(1) by (simp add: es_def)
qed

theorem user_getFavoriteGenre_lowest_index_witness:
  "user_getFavoriteGenre (- 1) 0
      (user_alice\<lparr>favorites := Stack [favorite_of 1, favorite_of 1, favorite_of 3]\<rparr>) = Some 1 \<and>
   user_getFavoriteGenre (- 1) 0
      (user_alice\<lparr>favorites := Stack [favorite_of 3, favorite_of 3, favorite_of 1]\<rparr>) = Some 3 \<and>
   list_all (\<lambda>e. 0 \<le> genre_of e \<and> genre_of e < 8) [favorite_of 5, favorite_of 2] \<and>
   int (length [favorite_of 5, favorite_of 2]) \<le> INT_MAX \<and>
   (0::int) < int (occurrences [favorite_of 5, favorite_of 2] (int 2)) \<and>
   (\<exists>k < 8. user_getFavoriteGenre (- 1) 0
        (user_alice\<lparr>favorites := Stack [favorite_of 5, favorite_of 2]\<rparr>) = Some (int k) \<and>
      occurrences [favorite_of 5, favorite_of 2] 5 \<le> occurrences [favorite_of 5, favorite_of 2] (int k)) \<and>
   user_getFavoriteGenre (- 1) 0
      (user_alice\<lparr>favorites := Stack [favorite_of 5, favorite_of 2]\<rparr>) = Some 2"
proof -
  have 1: "user_getFavoriteGenre (- 1) 0
      (user_alice\<lparr>favorites := Stack [favorite_of 1, favorite_of 1, favorite_of 3]\<rparr>) = Some 1"
    using user_getFavoriteGenre_lowest_index [of user_alice "[]" 0 "- 1" 3 1] by simp
  have 2: "user_getFavoriteGenre (- 1) 0
      (user_alice\<lparr>favorites := Stack [favorite_of 3, favorite_of 3, favorite_of 1]\<rparr>) = Some 3"
    using user_getFavoriteGenre_lowest_index [of user_alice "[]" 0 "- 1" 1 3] by simp
  define es where "es = [favorite_of 5, favorite_of 2]"
  have g: "list_all (\<lambda>e. 0 \<le> genre_of e \<and> genre_of e < 8) es"
    by (simp add: es_def genre_of_def favorite_of_def film_of_def)
  have n: "int (length es) \<le> INT_MAX" by (simp add: es_def INT_MAX_def)
  have o: "(0::int) < int (occurrences es (int 2))"
    by (simp add: es_def occurrences_def genre_of_def favorite_of_def film_of_def)
  have ex: "\<exists>j < 8. (0::int) < int (occurrences es (int j))"
    using o by (intro exI [of _ 2]) simp
  have "favorites (user_alice\<lparr>favorites := Stack es\<rparr>) = Stack es \<and> es \<noteq> [] \<and>
      (\<forall>e \<in> set es. 0 \<le> genre_of e \<and> genre_of e < 8) \<and> int (length es) \<le> INT_MAX \<and>
      (\<exists>j < 8. (0::int) < int (occurrences es (int j)))"
    using g n ex by (simp add: list_all_iff) (simp add: es_def)
  then obtain k where k: "k < 8"
      "user_getFavoriteGenre (- 1) 0 (user_alice\<lparr>favorites := Stack es\<rparr>) = Some (int k)"
      "\<forall>j < 8. occurrences es (int j) \<le> occurrences es (int k)"
    using user_getFavoriteGenre_lowest_index
      [of "user_alice\<lparr>favorites := Stack es\<rparr>" es 0 "- 1" 0 0]
    by blast
  have "(5::nat) < 8" by simp
  then have "occurrences es (int 5) \<le> occurrences es (int k)"
    using k(3) by blast
  then have "occurrences es 5 \<le> occurrences es (int k)" by simp
  then have 3: "\<exists>k < 8. user_getFavoriteGenre (- 1) 0 (user_alice\<lparr>favorites := Stack es\<rparr>) = Some (int k) \<and>
       occurrences es 5 \<le> occurrences es (int k)"
    using k(1,2) by auto
  have 4: "user_getFavoriteGenre (- 1) 0 (user_alice\<lparr>favorites := Stack es\<rparr>) = Some 2"
    unfolding es_def by code_simp
  show ?thesis using 1 2 g n o 3 4 by (simp add: es_def)
qed

subsection \<open>Removing a present user\<close>

text \<open>
  When every allocation succeeds, removing a present user from a valid table shifts the
  later users one slot down: each of them keeps its three strings and gets an empty stack.
\<close>

lemma user_cpy_succeeds:
  assumes "valid_user dst" "valid_user src"
  shows "user_cpy [] dst src = Some (OK, src\<lparr>favorites := Stack []\<rparr>, [])"
proof -
  obtain u n m where s: "username src = Str u" "name src = Str n" "mail src = Str m"
    using assms(2)
    by (cases "username src"; cases "name src"; cases "mail src") (auto simp: valid_user_def)
  obtain dst1 where f: "user_free dst = Some dst1"
    using assms(1)
    by (cases "username dst"; cases "name dst"; cases "mail dst"; cases "favorites dst")
      (auto simp: valid_user_def user_free_def)
  have "src\<lparr>favorites := Stack []\<rparr>
      = \<lparr>username = Str u, name = Str n, mail = Str m, favorites = Stack []\<rparr>"
    using s by (cases src) simp
  then show ?thesis using f s by (simp add: user_cpy_def user_init_succeeds)
qed

lemma valid_user_reset: "valid_user x \<Longrightarrow> valid_user (x\<lparr>favorites := Stack []\<rparr>)"
  by (simp add: valid_user_def)

lemma remove_loop_shift:
  assumes "elements t = Some es" "size' t = length es" "list_all valid_user es"
    "1 \<le> i" "i \<le> length es"
  shows "\<exists>es'. userTable_remove_loop [] t u i True = Some (Inr (True, t\<lparr>elements := Some es'\<rparr>, []))
     \<and> length es' = length es
     \<and> take (length es - 1) es' = take (i - 1) es @ map (\<lambda>x. x\<lparr>favorites := Stack []\<rparr>) (drop i es)"
  using assms
proof (induction n \<equiv> "length es - i" arbitrary: t es i)
  case 0
  then have i: "i = length es" by simp
  have "userTable_remove_loop [] t u i True = Some (Inr (True, t, []))"
    using i 0(3) by (subst userTable_remove_loop.simps) simp
  moreover have "t\<lparr>elements := Some es\<rparr> = t" using 0(2) by simp
  ultimately show ?case using i by (intro exI [of _ es]) simp
next
  case (Suc n)
  then have in_range: "i < length es" by simp
  have dst: "element_at t (i - 1) = Some (es ! (i - 1))"
    and src: "element_at t i = Some (es ! i)"
    using Suc(3) in_range by (simp_all add: element_at_def)
  have vd: "valid_user (es ! (i - 1))" and vs: "valid_user (es ! i)"
    using Suc(5) in_range by (simp_all add: list_all_length)
  define es1 where "es1 = es[i - 1 := (es ! i)\<lparr>favorites := Stack []\<rparr>]"
  define t1 where "t1 = t\<lparr>elements := Some es1\<rparr>"
  have step: "userTable_remove_loop [] t u i True = userTable_remove_loop [] t1 u (i + 1) True"
    using in_range Suc(3,4,6) dst src user_cpy_succeeds [OF vd vs]
    by (subst userTable_remove_loop.simps) (simp add: es1_def t1_def)
  have v1: "list_all valid_user es1"
    using Suc(5) vs valid_user_reset [OF vs] in_range
    by (auto simp: es1_def list_all_length nth_list_update)
  obtain es' where es': "userTable_remove_loop [] t1 u (i + 1) True
        = Some (Inr (True, t1\<lparr>elements := Some es'\<rparr>, []))"
      "length es' = length es1"
      "take (length es1 - 1) es' = take (i + 1 - 1) es1 @ map (\<lambda>x. x\<lparr>favorites := Stack []\<rparr>) (drop (i + 1) es1)"
  proof -
    have p1: "n = length es1 - (i + 1)" using Suc(2) by (simp add: es1_def)
    have p2: "elements t1 = Some es1" by (simp add: t1_def)
    have p3: "size' t1 = length es1" using Suc(4) by (simp add: t1_def es1_def)
    have p4: "1 \<le> i + 1" by simp
    have p5: "i + 1 \<le> length es1" using in_range by (simp add: es1_def)
    show ?thesis using Suc(1) [OF p1 p2 p3 v1 p4 p5] that by blast
  qed
  have tk: "take (i + 1 - 1) es1 = take (i - 1) es @ [(es ! i)\<lparr>favorites := Stack []\<rparr>]"
    using Suc(6) in_range
    by (simp add: es1_def take_Suc_conv_app_nth [of "i - 1", simplified] upd_conv_take_nth_drop)
  have dr: "drop (i + 1) es1 = drop (i + 1) es" by (simp add: es1_def)
  have d: "drop i es = es ! i # drop (i + 1) es"
    using in_range by (simp add: Cons_nth_drop_Suc)
  have "take (length es - 1) es' = take (i - 1) es @ map (\<lambda>x. x\<lparr>favorites := Stack []\<rparr>) (drop i es)"
    using es'(3) tk dr d by (simp add: es1_def)
  moreover have "t1\<lparr>elements := Some es'\<rparr> = t\<lparr>elements := Some es'\<rparr>" by (simp add: t1_def)
  ultimately show ?case
    using step es'(1,2) by (intro exI [of _ es']) (simp add: es1_def)
qed

lemma remove_loop_search:
  assumes "valid_table t" "username u = Str s" "j < size' t" "username (users t ! j) = Str s"
  shows "i \<le> j \<Longrightarrow> \<forall>k. i \<le> k \<and> k < j \<longrightarrow> username (users t ! k) \<noteq> Str s \<Longrightarrow>
    userTable_remove_loop [] t u i False = userTable_remove_loop [] t u (j + 1) True"
proof (induction n \<equiv> "j - i" arbitrary: i)
  case 0
  then have i: "i = j" by simp
  show ?case
    using i assms valid_table_element_at [OF assms(1,3)] valid_table_strcmp0 [OF assms(1,3), of s]
    by (subst userTable_remove_loop.simps) simp
next
  case (Suc n)
  then have lt: "i < j" by simp
  then have in_range: "i < size' t" using assms(3) by simp
  have rec: "userTable_remove_loop [] t u (i + 1) False = userTable_remove_loop [] t u (j + 1) True"
    using Suc lt by (intro Suc(1)) auto
  have "username (users t ! i) \<noteq> Str s" using Suc(4) lt by simp
  then show ?case
    using in_range rec assms(2) valid_table_element_at [OF assms(1) in_range]
      valid_table_strcmp0 [OF assms(1) in_range, of s]
    by (subst userTable_remove_loop.simps) simp
qed

lemma remove_succeeds:
  assumes "valid_table t" "username u = Str s" "Str s \<in> set (map username (users t))"
  shows "\<exists>j t'. j < size' t \<and> username (users t ! j) = Str s \<and>
      (\<forall>k < j. username (users t ! k) \<noteq> Str s) \<and>
      userTable_remove [] t u = Some (OK, t', []) \<and> valid_table t' \<and>
      size' t' = size' t - 1 \<and>
      users t' = take j (users t) @ map (\<lambda>x. x\<lparr>favorites := Stack []\<rparr>) (drop (Suc j) (users t))"
proof -
  have len: "length (users t) = size' t" by (rule valid_table_length [OF assms(1)])
  obtain j where j: "j < size' t" "username (users t ! j) = Str s"
      "\<forall>k < j. username (users t ! k) \<noteq> Str s"
    using first_occurrence [OF assms(3)] len by auto
  obtain es where es: "elements t = Some es" "size' t = length es" "list_all valid_user es"
    using assms(1) j(1) by (auto simp: valid_table_def split: option.splits)
  have us: "users t = es" using es by (simp add: users_def)
  have search: "userTable_remove_loop [] t u 0 False = userTable_remove_loop [] t u (j + 1) True"
    using j(3) by (intro remove_loop_search [OF assms(1,2) j(1,2)]) auto
  obtain es' where es': "userTable_remove_loop [] t u (j + 1) True
        = Some (Inr (True, t\<lparr>elements := Some es'\<rparr>, []))"
      "length es' = length es"
      "take (length es - 1) es' = take (j + 1 - 1) es @ map (\<lambda>x. x\<lparr>favorites := Stack []\<rparr>) (drop (j + 1) es)"
    using remove_loop_shift [OF es, of "j + 1" u] j(1) es(2) by auto
  define r where "r = take j es @ map (\<lambda>x. x\<lparr>favorites := Stack []\<rparr>) (drop (Suc j) es)"
  have tk: "take (length es - 1) es' = r" using es'(3) by (simp add: r_def)
  have rlen: "length r = length es - 1" using j(1) es(2) by (simp add: r_def)
  have rv: "list_all valid_user r"
    using es(3) by (auto simp: r_def list_all_iff valid_user_def dest: in_set_takeD in_set_dropD)
  define t' where "t' = (if length es - 1 = 0
      then t\<lparr>elements := None, size' := 0\<rparr>
      else t\<lparr>elements := Some r, size' := length es - 1\<rparr>)"
  have res: "userTable_remove [] t u = Some (OK, t', [])"
    using search es'(1,2) tk es(2)
    by (simp add: userTable_remove_def realloc_def t'_def Let_def)
  have v: "valid_table t'" using rv rlen by (simp add: t'_def valid_table_def)
  have u': "users t' = r" using rlen by (auto simp: t'_def users_def)
  have sz: "size' t' = size' t - 1" using es(2) by (simp add: t'_def)
  show ?thesis
    using j res v sz u' us by (intro exI [of _ j] exI [of _ t']) (simp add: r_def)
qed

lemma filter_out_nth:
  assumes "distinct (map f xs)" "j < length xs"
  shows "filter (\<lambda>x. f x \<noteq> f (xs ! j)) xs = take j xs @ drop (Suc j) xs"
proof -
  have xs: "xs = take j xs @ xs ! j # drop (Suc j) xs"
    using assms(2) by (simp add: id_take_nth_drop)
  then have "distinct (map f (take j xs) @ f (xs ! j) # map f (drop (Suc j) xs))"
    using assms(1) by (metis list.simps(9) map_append)
  then have "f (xs ! j) \<notin> f ` set (take j xs)" "f (xs ! j) \<notin> f ` set (drop (Suc j) xs)"
    by auto
  then have a: "\<forall>x \<in> set (take j xs). f x \<noteq> f (xs ! j)"
    and b: "\<forall>x \<in> set (drop (Suc j) xs). f x \<noteq> f (xs ! j)"
    by (metis image_eqI)+
  have "filter (\<lambda>x. f x \<noteq> f (xs ! j)) (take j xs @ xs ! j # drop (Suc j) xs)
      = take j xs @ drop (Suc j) xs"
    using a b by simp
  then show ?thesis using xs by simp
qed

lemma remove_then_find:
  assumes "valid_table t" "distinct (map username (users t))" "username u = Str s"
    "Str s \<in> set (map username (users t))"
  shows "\<exists>t'. userTable_remove [] t u = Some (OK, t', []) \<and> valid_table t' \<and>
      size' t' = size' t - 1 \<and> userTable_find t' (Str s) = Some None \<and>
      map (\<lambda>x. (username x, name x, mail x)) (users t')
        = map (\<lambda>x. (username x, name x, mail x)) (filter (\<lambda>x. username x \<noteq> Str s) (users t))"
proof -
  obtain j t' where j: "j < size' t" "username (users t ! j) = Str s"
    and res: "userTable_remove [] t u = Some (OK, t', [])" and v: "valid_table t'"
    and sz: "size' t' = size' t - 1"
    and us: "users t' = take j (users t) @ map (\<lambda>x. x\<lparr>favorites := Stack []\<rparr>) (drop (Suc j) (users t))"
    using remove_succeeds [OF assms(1,3,4)] by blast
  have len: "length (users t) = size' t" by (rule valid_table_length [OF assms(1)])
  have flt: "filter (\<lambda>x. username x \<noteq> Str s) (users t) = take j (users t) @ drop (Suc j) (users t)"
    using filter_out_nth [OF assms(2), of j] j len by simp
  have m: "map (\<lambda>x. (username x, name x, mail x)) (users t')
        = map (\<lambda>x. (username x, name x, mail x)) (filter (\<lambda>x. username x \<noteq> Str s) (users t))"
    unfolding flt us by (simp add: comp_def)
  have "Str s \<notin> set (map username (filter (\<lambda>x. username x \<noteq> Str s) (users t)))"
    by auto
  moreover have "map username (users t') = map username (filter (\<lambda>x. username x \<noteq> Str s) (users t))"
    unfolding flt us by (simp add: comp_def)
  ultimately have "Str s \<notin> set (map username (users t'))" by simp
  then have f: "userTable_find t' (Str s) = Some None"
    by (rule find_absent [OF v])
  show ?thesis using res v sz f m by blast
qed

text \<open>
  C7. The code when the first allocation of the copy that shifts \<open>user_bob\<close> into the
  slot of the removed \<open>user_alice\<close> fails: \<^verbatim>\<open>user_cpy\<close> returns \<^verbatim>\<open>OK\<close>, so
  \<^verbatim>\<open>userTable_remove\<close> returns \<^verbatim>\<open>OK\<close> with size 1, and the surviving slot holds
  none of the strings of \<open>user_bob\<close>; a later \<^verbatim>\<open>userTable_find\<close> compares against a
  null pointer. (When every allocation succeeds and the usernames are distinct, the size
  decreases by one, the username is not found any more and the survivors keep their order
  and their strings: lemma \<open>remove_then_find\<close>.)
\<close>

theorem userTable_remove_OK_loses_survivor:
  "userTable_remove [False] table_ab user_alice
     = Some (OK, \<lparr>elements = Some [failed_slot (Stack [])], size' = 1\<rparr>, []) \<and>
   username (failed_slot (Stack [])) \<noteq> username user_bob \<and>
   userTable_find \<lparr>elements = Some [failed_slot (Stack [])], size' = 1\<rparr> (username user_alice) = None"
  by code_simp

subsection \<open>The normalised name\<close>

lemma trim_start_eq:
  "i \<le> length s \<Longrightarrow> trim_start s i = i + length (takeWhile isblank (drop i s))"
proof (induction n \<equiv> "length s - i" arbitrary: i)
  case 0
  then show ?case by (subst trim_start.simps) simp
next
  case (Suc n)
  then have in_range: "i < length s" by simp
  then have d: "drop i s = s ! i # drop (i + 1) s" by (simp add: Cons_nth_drop_Suc)
  have rec: "trim_start s (i + 1) = (i + 1) + length (takeWhile isblank (drop (i + 1) s))"
    using Suc by (intro Suc(1)) auto
  show ?case
    using in_range rec d by (subst trim_start.simps) simp
qed

lemma trim_end_eq:
  "n < length s \<Longrightarrow> \<exists>c \<in> set (take (Suc n) s). \<not> isblank c \<Longrightarrow>
   trim_end s n = Some (n - length (takeWhile isblank (rev (take (Suc n) s))))"
proof (induction n)
  case 0
  then have "take (Suc 0) s = [s ! 0]" by (cases s) auto
  then show ?case using 0 by simp
next
  case (Suc n)
  have t: "take (Suc (Suc n)) s = take (Suc n) s @ [s ! Suc n]"
    using Suc(2) by (simp add: take_Suc_conv_app_nth)
  show ?case
  proof (cases "isblank (s ! Suc n)")
    case True
    then have "\<exists>c \<in> set (take (Suc n) s). \<not> isblank c" using Suc(3) t by auto
    then have "trim_end s n = Some (n - length (takeWhile isblank (rev (take (Suc n) s))))"
      using Suc by simp
    then show ?thesis using True t by simp
  next
    case False
    then show ?thesis using t by simp
  qed
qed

lemma trim_end_none:
  "n < length s \<Longrightarrow> \<forall>c \<in> set (take (Suc n) s). isblank c \<Longrightarrow> trim_end s n = None"
proof (induction n)
  case 0
  then have "take (Suc 0) s = [s ! 0]" by (cases s) auto
  then show ?case using 0 by simp
next
  case (Suc n)
  have t: "take (Suc (Suc n)) s = take (Suc n) s @ [s ! Suc n]"
    using Suc(2) by (simp add: take_Suc_conv_app_nth)
  then show ?case using Suc by simp
qed

lemma copy_loop_eq:
  "b < length s \<Longrightarrow> copy_loop s a b = take (Suc b - a) (drop a s)"
proof (induction n \<equiv> "Suc b - a" arbitrary: a)
  case 0
  then show ?case by (subst copy_loop.simps) simp
next
  case (Suc n)
  then have le: "a \<le> b" by simp
  then have "a < length s" using Suc(3) by simp
  then have d: "drop a s = s ! a # drop (a + 1) s" by (simp add: Cons_nth_drop_Suc)
  have rec: "copy_loop s (a + 1) b = take (Suc b - (a + 1)) (drop (a + 1) s)"
    using Suc by (intro Suc(1)) auto
  have "Suc b - a = Suc (Suc b - (a + 1))" using le by simp
  then show ?case
    using le rec d by (subst copy_loop.simps) simp
qed

lemma rev_dropWhile_rev:
  "rev (dropWhile P (rev t)) = take (length t - length (takeWhile P (rev t))) t"
proof -
  have "dropWhile P (rev t) = drop (length (takeWhile P (rev t))) (rev t)"
    by (simp add: dropWhile_eq_drop)
  then show ?thesis by (simp add: rev_drop)
qed

lemma trim_window:
  assumes "\<exists>c \<in> set s. \<not> isblank c"
  shows "take (Suc (length s - 1 - length (takeWhile isblank (rev s)))
               - length (takeWhile isblank s))
           (drop (length (takeWhile isblank s)) s) = spec_trim s"
proof -
  define a where "a = length (takeWhile isblank s)"
  define k where "k = length (takeWhile isblank (rev s))"
  define t where "t = dropWhile isblank s"
  have t_drop: "t = drop a s" by (simp add: t_def a_def dropWhile_eq_drop)
  have nb: "\<exists>c \<in> set t. \<not> isblank c"
    using assms unfolding t_def by (metis dropWhile_eq_Nil_conv hd_dropWhile hd_in_set)
  have "rev s = rev t @ rev (takeWhile isblank s)"
    unfolding t_def by (metis rev_append takeWhile_dropWhile_id)
  moreover obtain c where "c \<in> set (rev t)" "\<not> isblank c" using nb by auto
  ultimately have tw: "takeWhile isblank (rev s) = takeWhile isblank (rev t)"
    using takeWhile_append1 [of c "rev t" isblank "rev (takeWhile isblank s)"] by presburger
  have "takeWhile isblank (rev s) \<noteq> rev s"
    using assms by (simp add: takeWhile_eq_all_conv)
  moreover have "takeWhile isblank (rev s) = take k (rev s)"
    unfolding k_def by (rule takeWhile_eq_take)
  ultimately have "k < length s"
    by (cases "k < length s") auto
  have len: "length t = length s - a" by (simp add: t_drop)
  have "k \<le> length t"
    unfolding k_def tw using length_takeWhile_le [of isblank "rev t"] by simp
  then have "Suc (length s - 1 - k) - a = length t - k"
    using len \<open>k < length s\<close> by simp
  then have "take (Suc (length s - 1 - k) - a) (drop a s) = take (length t - k) t"
    by (simp add: t_drop)
  also have "\<dots> = rev (dropWhile isblank (rev t))"
    unfolding k_def tw by (simp add: rev_dropWhile_rev)
  finally show ?thesis by (simp add: spec_trim_def a_def k_def t_def)
qed

lemma capitalize_word:
  "\<forall>c \<in> set w. \<not> isblank c \<Longrightarrow>
   capitalize_loop (w @ r) False = map tolower w @ capitalize_loop r False"
  by (induction w) auto

lemma capitalize_flag:
  "r = [] \<or> isblank (hd r) \<Longrightarrow> capitalize_loop r b = capitalize_loop r True"
  by (cases r) auto

lemma capitalize_spec: "capitalize_loop s True = spec_title_case s"
proof (induction s rule: spec_title_case.induct)
  case 1
  then show ?case by simp
next
  case (2 c cs)
  show ?case
  proof (cases "isblank c")
    case True
    then show ?thesis using 2 by simp
  next
    case False
    define w where "w = takeWhile (\<lambda>x. \<not> isblank x) cs"
    define r where "r = dropWhile (\<lambda>x. \<not> isblank x) cs"
    have cs: "cs = w @ r" by (simp add: w_def r_def)
    have w: "\<forall>c \<in> set w. \<not> isblank c" unfolding w_def by (auto dest: set_takeWhileD)
    have r: "r = [] \<or> isblank (hd r)"
      unfolding r_def by (metis hd_dropWhile)
    have "capitalize_loop (c # cs) True = toupper c # capitalize_loop (w @ r) False"
      using False cs by simp
    also have "\<dots> = toupper c # map tolower w @ capitalize_loop r True"
      using capitalize_word [OF w] capitalize_flag [OF r] by simp
    also have "capitalize_loop r True = spec_title_case r"
      using 2(2) False by (simp add: r_def)
    finally show ?thesis using False by (simp add: w_def r_def)
  qed
qed


text \<open>
  C8. For a user whose name holds a character that is not blank,
  \<^verbatim>\<open>user_trimCapitalizeName\<close> returns \<^verbatim>\<open>OK\<close> when its buffer is allocated, and the
  name is then the old one with the leading and trailing blanks stripped, the blanks
  inside kept, and every blank-separated word with its first letter upper and the rest
  lower; when the buffer is not allocated it returns \<^verbatim>\<open>ERR_MEMORY_ERROR\<close> and the user
  is unchanged. On \<open>''  john   DOE ''\<close> the name becomes \<open>''John   Doe''\<close>.
\<close>

theorem user_trimCapitalizeName_normalises:
  "(name object = Str s \<and> (\<exists>c \<in> set s. \<not> isblank c) \<longrightarrow>
    user_trimCapitalizeName h object =
     Some (if fst (malloc h)
           then (OK, object\<lparr>name := Str (spec_title_case (spec_trim s))\<rparr>, snd (malloc h))
           else (ERR_MEMORY_ERROR, object, snd (malloc h)))) \<and>
   (name object = Str ''  john   DOE '' \<longrightarrow>
    user_trimCapitalizeName h object =
     Some (if fst (malloc h)
           then (OK, object\<lparr>name := Str ''John   Doe''\<rparr>, snd (malloc h))
           else (ERR_MEMORY_ERROR, object, snd (malloc h))))"
proof -
  have main: "user_trimCapitalizeName h object =
     Some (if fst (malloc h)
           then (OK, object\<lparr>name := Str (spec_title_case (spec_trim s))\<rparr>, snd (malloc h))
           else (ERR_MEMORY_ERROR, object, snd (malloc h)))"
    if n: "name object = Str s" and nb: "\<exists>c \<in> set s. \<not> isblank c" for s
  proof -
    have ne: "s \<noteq> []" using nb by auto
    then have lt: "length s - 1 < length s" by simp
    have tk: "take (Suc (length s - 1)) s = s" using ne by simp
    have e: "trim_end s (length s - 1) = Some (length s - 1 - length (takeWhile isblank (rev s)))"
      using trim_end_eq [OF lt] nb tk by simp
    have st: "trim_start s 0 = length (takeWhile isblank s)"
      using trim_start_eq [of 0 s] by simp
    have b: "length s - 1 - length (takeWhile isblank (rev s)) < length s"
      using lt by simp
    have cp: "copy_loop s (trim_start s 0) (length s - 1 - length (takeWhile isblank (rev s)))
        = spec_trim s"
      using copy_loop_eq [OF b] trim_window [OF nb] st by simp
    show ?thesis
      using n ne e cp capitalize_spec
      by (cases "malloc h") (simp add: user_trimCapitalizeName_def)
  qed
  have ex: "\<exists>c \<in> set ''  john   DOE ''. \<not> isblank c"
    by (simp add: isblank_def)
  have v: "spec_title_case (spec_trim ''  john   DOE '') = ''John   Doe''"
    by code_simp
  show ?thesis
    using main [of s] main [of "''  john   DOE ''", OF _ ex] v by simp
qed

theorem user_trimCapitalizeName_normalises_witness:
  "name (user_alice\<lparr>name := Str ''  john   DOE ''\<rparr>) = Str ''  john   DOE '' \<and>
   (\<exists>c \<in> set ''  john   DOE ''. \<not> isblank c) \<and>
   spec_title_case (spec_trim ''  john   DOE '') = ''John   Doe'' \<and>
   user_trimCapitalizeName [] (user_alice\<lparr>name := Str ''  john   DOE ''\<rparr>)
     = Some (OK, user_alice\<lparr>name := Str ''John   Doe''\<rparr>, []) \<and>
   user_trimCapitalizeName [False] (user_alice\<lparr>name := Str ''  john   DOE ''\<rparr>)
     = Some (ERR_MEMORY_ERROR, user_alice\<lparr>name := Str ''  john   DOE ''\<rparr>, [])"
proof -
  have n: "name (user_alice\<lparr>name := Str ''  john   DOE ''\<rparr>) = Str ''  john   DOE ''"
    by simp
  have b: "\<exists>c \<in> set ''  john   DOE ''. \<not> isblank c"
    by (simp add: isblank_def)
  have v: "spec_title_case (spec_trim ''  john   DOE '') = ''John   Doe''"
    by code_simp
  show ?thesis
    using n b v
      user_trimCapitalizeName_normalises
        [of "user_alice\<lparr>name := Str ''  john   DOE ''\<rparr>" "''  john   DOE ''" "[]"]
      user_trimCapitalizeName_normalises
        [of "user_alice\<lparr>name := Str ''  john   DOE ''\<rparr>" "''  john   DOE ''" "[False]"]
    by simp
qed

end
